theory Spec2Isabelle
  imports Main "HOL-Library.AList"
begin

section \<open>Resilient request client: \<open>ApiClient\<close> (src/src/services/DatabaseService.ts)\<close>

text \<open>
  Values thrown inside the \<open>try\<close> block of \<open>ApiClient.request\<close> are JavaScript objects
  of which the code reads four properties: \<open>name\<close>, \<open>message\<close>, \<open>code\<close> and
  \<open>response.status\<close>. A property that the object does not carry is \<open>None\<close>.
  \<open>new Error(m)\<close> carries a name and a message only; the \<open>ApiError\<close> object thrown by
  \<open>parseResponse\<close> carries a code and a message.
\<close>

record js_error =
  err_name :: "string option"
  err_message :: "string option"
  err_code :: "string option"
  err_response :: "nat option"

definition new_Error :: "string \<Rightarrow> js_error" where
  "new_Error m =
     \<lparr>err_name = Some ''Error'', err_message = Some m, err_code = None, err_response = None\<rparr>"

record ApiClientConfig =
  timeout :: nat
  maxRetries :: nat
  retryDelay :: int
  retryCondition :: "js_error \<Rightarrow> bool"

text \<open>\<open>DEFAULT_CONFIG.retryCondition\<close>, disjunct by disjunct.\<close>

definition default_retryCondition :: "js_error \<Rightarrow> bool" where
  "default_retryCondition error =
     (err_response error = None \<or>
      (case err_response error of None \<Rightarrow> False | Some st \<Rightarrow> 500 \<le> st \<and> st < 600) \<or>
      err_code error = Some ''NETWORK_ERROR'' \<or>
      err_code error = Some ''TIMEOUT'')"

definition DEFAULT_CONFIG :: ApiClientConfig where
  "DEFAULT_CONFIG =
     \<lparr>timeout = 30000, maxRetries = 3, retryDelay = 1000,
      retryCondition = default_retryCondition\<rparr>"

text \<open>
  \<open>calculateRetryDelay(attempt)\<close> is
  \<open>Math.min(retryDelay * Math.pow(2, attempt - 1), 30000)\<close>. The attempt number is a
  natural number; \<open>request\<close> only calls it after \<open>attempt++\<close>, so with \<open>attempt \<ge> 1\<close>,
  where the truncating subtraction of \<open>nat\<close> agrees with the source. The base delay is
  an integer number of milliseconds.
\<close>

definition calculateRetryDelay :: "ApiClientConfig \<Rightarrow> nat \<Rightarrow> int" where
  "calculateRetryDelay cfg attempt = min (retryDelay cfg * 2 ^ (attempt - 1)) 30000"

subsection \<open>One attempt: \<open>performRequest\<close> and \<open>parseResponse\<close>\<close>

text \<open>
  What \<open>fetch\<close> does is the environment's choice: it rejects with an error that has a
  name and a message (a connectivity failure, or an \<open>AbortError\<close> when the timeout
  aborts the request), or it resolves with a status line and a body. The body is not
  JSON (\<open>None\<close>), JSON that is not an object, or an object read as the envelope
  \<open>{success, data, error: {code, message}}\<close>.
\<close>

record 'a envelope =
  env_success :: "bool option"
  env_data :: "'a option"
  env_error_code :: "string option"
  env_error_message :: "string option"

datatype 'a json_body = JsonOther | JsonObject "'a envelope"

record 'a http_response =
  status :: nat
  statusText :: string
  body :: "'a json_body option"

datatype 'a fetch_result =
    FetchRejects string string
  | FetchResolves "'a http_response"

text \<open>Decimal digits of a number, as the template literal prints the status.\<close>

fun show_nat :: "nat \<Rightarrow> string" where
  "show_nat n =
     (if n < 10 then [''0123456789'' ! n]
      else show_nat (n div 10) @ [''0123456789'' ! (n mod 10)])"

declare show_nat.simps [simp del]

text \<open>
  \<open>performRequest\<close>: a response that is not \<open>ok\<close> (status outside 200..299) throws
  \<open>new Error(`HTTP ${status}: ${statusText}`)\<close>; an \<open>AbortError\<close> is rethrown as
  \<open>new Error('Request timeout')\<close>; every other error is rethrown as it is. None of the
  thrown objects has a \<open>response\<close> or a \<open>code\<close> property.
\<close>

definition performRequest :: "'a fetch_result \<Rightarrow> js_error + 'a http_response" where
  "performRequest r =
     (case r of
        FetchRejects name msg \<Rightarrow>
          if name = ''AbortError'' then Inl (new_Error ''Request timeout'')
          else Inl \<lparr>err_name = Some name, err_message = Some msg,
                    err_code = None, err_response = None\<rparr>
      | FetchResolves response \<Rightarrow>
          if \<not> (200 \<le> status response \<and> status response \<le> 299)
          then Inl (new_Error (''HTTP '' @ show_nat (status response) @ '': '' @ statusText response))
          else (case body response of
                  None \<Rightarrow> Inl \<lparr>err_name = Some ''SyntaxError'', err_message = Some ''JSON Parse error'',
                                 err_code = None, err_response = None\<rparr>
                | Some _ \<Rightarrow> Inr response))"

text \<open>
  \<open>parseResponse\<close>: a body that is not an object throws
  \<open>new Error('Invalid response format')\<close>; \<open>success === false\<close> throws an \<open>ApiError\<close>
  whose code is \<open>data.error?.code || 'SERVER_ERROR'\<close> and whose message is
  \<open>data.error?.message || 'Unknown error'\<close> (the empty string is falsy).
\<close>

definition or_default :: "string option \<Rightarrow> string \<Rightarrow> string" where
  "or_default v d = (case v of None \<Rightarrow> d | Some s \<Rightarrow> if s = [] then d else s)"

definition parseResponse :: "'a http_response \<Rightarrow> js_error + 'a envelope" where
  "parseResponse response =
     (case body response of
        Some (JsonObject data) \<Rightarrow>
          if env_success data = Some False
          then Inl \<lparr>err_name = None,
                    err_message = Some (or_default (env_error_message data) ''Unknown error''),
                    err_code = Some (or_default (env_error_code data) ''SERVER_ERROR''),
                    err_response = None\<rparr>
          else Inr data
      | _ \<Rightarrow> Inl (new_Error ''Invalid response format''))"

definition attemptOnce :: "'a fetch_result \<Rightarrow> js_error + 'a envelope" where
  "attemptOnce r =
     (case performRequest r of Inl e \<Rightarrow> Inl e | Inr response \<Rightarrow> parseResponse response)"

subsection \<open>The retry loop of \<open>request\<close>\<close>

text \<open>
  The client is the one \<open>new ApiClient()\<close> builds: no interceptor is registered. The
  network is a function from the index of the attempt (0 for the first) to what
  \<open>fetch\<close> does at that attempt. A run records how many times \<open>performRequest\<close> was
  called, the delays slept between attempts, and the outcome: the response, or
  \<open>lastError\<close>, the error that \<open>normalizeError\<close> is given after the loop.

  The loop is \<open>while (attempt <= maxRetries)\<close>; in the \<open>catch\<close> block \<open>attempt++\<close>
  comes first, and the attempt is retried when
  \<open>attempt <= maxRetries && retryCondition(error)\<close>.
\<close>

record 'a request_run =
  attempts :: nat
  slept :: "int list"
  outcome :: "js_error option + 'a envelope"

function request_loop ::
  "ApiClientConfig \<Rightarrow> (nat \<Rightarrow> 'a fetch_result) \<Rightarrow> nat \<Rightarrow> int list \<Rightarrow> js_error option
     \<Rightarrow> 'a request_run" where
  "request_loop cfg net attempt delays lastError =
     (if attempt \<le> maxRetries cfg then
        (case attemptOnce (net attempt) of
           Inr data \<Rightarrow> \<lparr>attempts = attempt + 1, slept = delays, outcome = Inr data\<rparr>
         | Inl error \<Rightarrow>
             if attempt + 1 \<le> maxRetries cfg \<and> retryCondition cfg error
             then request_loop cfg net (attempt + 1)
                    (delays @ [calculateRetryDelay cfg (attempt + 1)]) (Some error)
             else \<lparr>attempts = attempt + 1, slept = delays, outcome = Inl (Some error)\<rparr>)
      else \<lparr>attempts = attempt, slept = delays, outcome = Inl lastError\<rparr>)"
  by pat_completeness auto
termination
  by (relation "measure (\<lambda>(cfg, net, attempt, delays, lastError). Suc (maxRetries cfg) - attempt)")
     auto

declare request_loop.simps [simp del]

definition request :: "ApiClientConfig \<Rightarrow> (nat \<Rightarrow> 'a fetch_result) \<Rightarrow> 'a request_run" where
  "request cfg net = request_loop cfg net 0 [] None"

text \<open>A server that answers every attempt with \<open>404 Not Found\<close> and an empty body.\<close>

definition always_404 :: "nat \<Rightarrow> unit fetch_result" where
  "always_404 k = FetchResolves \<lparr>status = 404, statusText = ''Not Found'', body = None\<rparr>"

section \<open>Auth session manager: \<open>JWTAuthService\<close> (src/unnamed/part_010)\<close>

text \<open>
  Timestamps are integer milliseconds (\<open>Date.now()\<close>); the opaque user record is a string.
  The fields of \<open>LoginResponse\<close> and of the persisted \<open>AuthTokens\<close> carry a prefix where
  a field of \<open>JWTTokenInfo\<close> has the same name.
\<close>

record JWTTokenInfo =
  accessToken :: string
  refreshToken :: string
  expiresIn :: int
  expiresAt :: int
  tokenType :: string

record AuthState =
  isAuthenticated :: bool
  user :: "string option"
  tokenInfo :: "JWTTokenInfo option"
  lastRefreshTime :: int

record LoginResponse =
  login_accessToken :: string
  login_refreshToken :: string
  login_expiresIn :: int
  login_user :: string

record AuthTokens =
  stored_accessToken :: string
  stored_refreshToken :: string
  stored_expiresAt :: int

datatype AuthEvent =
    LOGIN_SUCCESS | LOGIN_FAILED | LOGOUT | TOKEN_REFRESHED | TOKEN_REFRESH_FAILED
  | AUTHENTICATION_REQUIRED

text \<open>
  The service: its \<open>authState\<close>, the in-flight refresh (\<open>refreshPromise\<close>, a handle, or
  \<open>None\<close> for \<open>null\<close>), the delay of the armed renewal timer (\<open>refreshTimer\<close>), and what
  its collaborators hold: the \<open>auth_tokens\<close> entry of the secure store and the events
  emitted so far. Three further fields record
  what an observer of the promises sees: the next fresh handle, the result each settled
  refresh promise resolved with, and the number of \<open>POST /auth/refresh\<close> calls handed to
  the request client.
\<close>

datatype refresh_start = ReturnsFalse | Posts string

record JWTAuthService =
  authState :: AuthState
  refreshPromise :: "(nat \<times> refresh_start) option"
  refreshTimer :: "int option"
  secureStorage :: "AuthTokens option"
  authEvents :: "AuthEvent list"
  nextPromise :: nat
  settled :: "nat \<rightharpoonup> bool"
  refreshRequests :: nat

definition isTokenValid :: "int \<Rightarrow> JWTTokenInfo \<Rightarrow> bool" where
  "isTokenValid now info = (let bufferTime = 5 * 60 * 1000 in expiresAt info > now + bufferTime)"

definition isCurrentTokenValid :: "JWTAuthService \<Rightarrow> int \<Rightarrow> bool" where
  "isCurrentTokenValid svc now =
     (case tokenInfo (authState svc) of None \<Rightarrow> False | Some info \<Rightarrow> isTokenValid now info)"

text \<open>The method \<open>isAuthenticated()\<close>; the field of the same name is \<open>isAuthenticated\<close>.\<close>

definition isAuthenticated_method :: "JWTAuthService \<Rightarrow> int \<Rightarrow> bool" where
  "isAuthenticated_method svc now =
     (isAuthenticated (authState svc) \<and> isCurrentTokenValid svc now)"

text \<open>
  \<open>getAccessToken()\<close> returns \<open>this.authState.tokenInfo?.accessToken || null\<close>: the empty
  string is falsy and comes back as \<open>null\<close>.
\<close>

definition getAccessToken :: "JWTAuthService \<Rightarrow> int \<Rightarrow> string option" where
  "getAccessToken svc now =
     (if \<not> isAuthenticated_method svc now then None
      else (case tokenInfo (authState svc) of
              None \<Rightarrow> None
            | Some info \<Rightarrow> if accessToken info = [] then None else Some (accessToken info)))"

definition isAuthError :: "js_error \<Rightarrow> bool" where
  "isAuthError error =
     (err_code error = Some ''UNAUTHORIZED'' \<or> err_code error = Some ''TOKEN_EXPIRED'')"

definition emitAuthEvent :: "AuthEvent \<Rightarrow> JWTAuthService \<Rightarrow> JWTAuthService" where
  "emitAuthEvent ev svc = svc\<lparr>authEvents := authEvents svc @ [ev]\<rparr>"

text \<open>
  What the secure store answers: \<open>saveAuthTokens\<close> and \<open>clearAuthTokens\<close> each resolve
  (\<open>None\<close>) or reject with an error, which they throw on to their caller.
\<close>

record secure_env =
  saveAuthTokens_error :: "js_error option"
  clearAuthTokens_error :: "js_error option"

definition reliable_store :: secure_env where
  "reliable_store = \<lparr>saveAuthTokens_error = None, clearAuthTokens_error = None\<rparr>"

text \<open>
  \<open>clearAuthState\<close> clears the timer and the state in memory and then the secure store;
  an error of the store is logged and not thrown on.
\<close>

definition clearAuthState :: "secure_env \<Rightarrow> JWTAuthService \<Rightarrow> JWTAuthService" where
  "clearAuthState env svc =
     (let svc1 = svc\<lparr>refreshTimer := None,
                     authState := \<lparr>isAuthenticated = False, user = None, tokenInfo = None,
                                    lastRefreshTime = 0\<rparr>\<rparr>
      in case clearAuthTokens_error env of
           None \<Rightarrow> svc1\<lparr>secureStorage := None\<rparr>
         | Some error \<Rightarrow> svc1)"

definition saveTokenToStorage ::
  "secure_env \<Rightarrow> JWTTokenInfo \<Rightarrow> JWTAuthService \<Rightarrow> js_error + JWTAuthService" where
  "saveTokenToStorage env info svc =
     (case saveAuthTokens_error env of
        Some error \<Rightarrow> Inl error
      | None \<Rightarrow>
          Inr (svc\<lparr>secureStorage :=
                     Some \<lparr>stored_accessToken = accessToken info,
                           stored_refreshToken = refreshToken info,
                           stored_expiresAt = expiresAt info\<rparr>\<rparr>))"

text \<open>
  \<open>scheduleTokenRefresh\<close> as \<open>performTokenRefresh\<close> calls it, that is while
  \<open>refreshPromise\<close> is set: the timer is cleared, and armed again when
  \<open>expiresAt - now - 10 min\<close> is positive. Otherwise \<open>refreshTokenSilently\<close> runs at
  once; its \<open>refreshToken()\<close> finds the refresh in flight and only awaits it, which
  changes nothing.
\<close>

definition scheduleTokenRefresh :: "int \<Rightarrow> JWTAuthService \<Rightarrow> JWTAuthService" where
  "scheduleTokenRefresh now svc =
     (case tokenInfo (authState svc) of
        None \<Rightarrow> svc\<lparr>refreshTimer := None\<rparr>
      | Some info \<Rightarrow>
          (let refreshTime = expiresAt info - now - (10 * 60 * 1000)
           in if refreshTime > 0 then svc\<lparr>refreshTimer := Some refreshTime\<rparr>
              else svc\<lparr>refreshTimer := None\<rparr>))"

text \<open>
  The answer of \<open>apiClient.post('/auth/refresh', ...)\<close> is an input: the error it
  rejects with, or the envelope it resolves with. \<open>refreshFailure\<close> is the error with
  which the request fails: the rejection, or
  \<open>new Error('Token refresh response is invalid')\<close> when \<open>success\<close> or \<open>data\<close> is falsy.
\<close>

type_synonym refresh_answer = "js_error + LoginResponse envelope"

definition refreshFailure :: "refresh_answer \<Rightarrow> js_error option" where
  "refreshFailure answer =
     (case answer of
        Inl error \<Rightarrow> Some error
      | Inr response \<Rightarrow>
          if env_success response \<noteq> Some True \<or> env_data response = None
          then Some (new_Error ''Token refresh response is invalid'')
          else None)"

text \<open>
  \<open>performTokenRefresh\<close> runs in two parts, split at its \<open>await\<close>. Up to the await it
  reads the current token and either returns \<open>false\<close> (no refresh token) or hands the
  request to the request client. After the await it works on \<open>this.authState\<close> as it is
  then. \<open>refreshCaught\<close> is its \<open>catch\<close> block, entered with the error thrown and the
  service as it is at the throw: the new credential is assigned in memory before it is
  saved to the secure store.
\<close>

definition refreshCaught :: "secure_env \<Rightarrow> js_error \<Rightarrow> JWTAuthService \<Rightarrow> bool \<times> JWTAuthService" where
  "refreshCaught env error svc =
     (if isAuthError error
      then (False, emitAuthEvent AUTHENTICATION_REQUIRED (clearAuthState env svc))
      else (False, emitAuthEvent TOKEN_REFRESH_FAILED svc))"

definition performTokenRefresh_start :: "JWTAuthService \<Rightarrow> refresh_start" where
  "performTokenRefresh_start svc =
     (case tokenInfo (authState svc) of
        None \<Rightarrow> ReturnsFalse
      | Some currentTokenInfo \<Rightarrow>
          if refreshToken currentTokenInfo = [] then ReturnsFalse
          else Posts (refreshToken currentTokenInfo))"

definition newTokenInfo :: "LoginResponse \<Rightarrow> int \<Rightarrow> JWTTokenInfo" where
  "newTokenInfo refreshData now =
     \<lparr>accessToken = login_accessToken refreshData,
      refreshToken = login_refreshToken refreshData,
      expiresIn = login_expiresIn refreshData,
      expiresAt = now + login_expiresIn refreshData * 1000,
      tokenType = ''Bearer''\<rparr>"

definition performTokenRefresh_resume ::
  "secure_env \<Rightarrow> JWTAuthService \<Rightarrow> refresh_answer \<Rightarrow> int \<Rightarrow> bool \<times> JWTAuthService" where
  "performTokenRefresh_resume env svc answer now =
     (case refreshFailure answer of
        Some error \<Rightarrow> refreshCaught env error svc
      | None \<Rightarrow>
          (case answer of
             Inr response \<Rightarrow>
               (case env_data response of
                  Some refreshData \<Rightarrow>
                    (let svc1 = svc\<lparr>authState := (authState svc)
                                  \<lparr>tokenInfo := Some (newTokenInfo refreshData now),
                                   user := Some (login_user refreshData),
                                   lastRefreshTime := now\<rparr>\<rparr>
                     in case saveTokenToStorage env (newTokenInfo refreshData now) svc1 of
                          Inl error \<Rightarrow> refreshCaught env error svc1
                        | Inr svc2 \<Rightarrow>
                            (True, emitAuthEvent TOKEN_REFRESHED (scheduleTokenRefresh now svc2)))
                | None \<Rightarrow> (False, svc))
           | Inl _ \<Rightarrow> (False, svc)))"

text \<open>The whole function, when nothing else runs during the await.\<close>

definition performTokenRefresh ::
  "secure_env \<Rightarrow> JWTAuthService \<Rightarrow> refresh_answer \<Rightarrow> int \<Rightarrow> bool \<times> JWTAuthService" where
  "performTokenRefresh env svc answer now =
     (case performTokenRefresh_start svc of
        ReturnsFalse \<Rightarrow> (False, svc)
      | Posts _ \<Rightarrow> performTokenRefresh_resume env svc answer now)"

subsection \<open>Single-flight refresh\<close>

text \<open>
  \<open>refreshToken()\<close> up to its \<open>await\<close>: when \<open>refreshPromise\<close> is set the caller is
  handed that promise; otherwise \<open>performTokenRefresh()\<close> is started and its promise is
  stored. The result is the handle the caller awaits. The stored promise is a handle
  together with how the refresh behind it started.
\<close>

definition refreshToken_call :: "JWTAuthService \<Rightarrow> nat \<times> JWTAuthService" where
  "refreshToken_call svc =
     (case refreshPromise svc of
        Some (p, started) \<Rightarrow> (p, svc)
      | None \<Rightarrow>
          (let started = performTokenRefresh_start svc
           in (nextPromise svc,
               svc\<lparr>refreshPromise := Some (nextPromise svc, started),
                   nextPromise := nextPromise svc + 1,
                   refreshRequests := refreshRequests svc +
                     (case started of ReturnsFalse \<Rightarrow> 0 | Posts _ \<Rightarrow> 1)\<rparr>)))"

text \<open>\<open>n\<close> calls in a row, none of them interleaved with the completion of the refresh.\<close>

fun refreshToken_calls :: "nat \<Rightarrow> JWTAuthService \<Rightarrow> nat list \<times> JWTAuthService" where
  "refreshToken_calls 0 svc = ([], svc)"
| "refreshToken_calls (Suc n) svc =
     (let (p, svc1) = refreshToken_call svc;
          (ps, svc2) = refreshToken_calls n svc1
      in (p # ps, svc2))"

text \<open>
  The in-flight refresh completes: the rest of \<open>performTokenRefresh\<close> runs on the
  answer, its promise resolves with the result, and the \<open>finally\<close> block of the call
  that started it resets \<open>refreshPromise\<close>.
\<close>

definition refresh_completes ::
  "secure_env \<Rightarrow> refresh_answer \<Rightarrow> int \<Rightarrow> JWTAuthService \<Rightarrow> JWTAuthService" where
  "refresh_completes env answer now svc =
     (case refreshPromise svc of
        None \<Rightarrow> svc
      | Some (p, started) \<Rightarrow>
          (let (result, svc1) =
                 (case started of
                    ReturnsFalse \<Rightarrow> (False, svc)
                  | Posts _ \<Rightarrow> performTokenRefresh_resume env svc answer now)
           in svc1\<lparr>settled := (settled svc1)(p \<mapsto> result), refreshPromise := None\<rparr>))"

text \<open>What a caller holding handle \<open>p\<close> resolves with, once the promise has settled.\<close>

definition resolvesWith :: "JWTAuthService \<Rightarrow> nat \<Rightarrow> bool option" where
  "resolvesWith svc p = settled svc p"

subsection \<open>The request of a refresh and the error interceptor\<close>

text \<open>
  The request of a refresh goes through the client on which the constructor registered
  the error interceptor of \<open>setupApiInterceptors\<close>. When the client's request ends with
  an error, \<open>ApiClient.request\<close> awaits the interceptors before it throws the error on.
  For an error of the authentication class the interceptor awaits \<open>refreshToken()\<close>,
  which, a refresh being in flight, hands it the stored promise: the promise of the very
  refresh whose request is ending. That promise settles only after the request has
  thrown, and the request throws only after the interceptor has returned: neither
  happens, and the refresh stays in flight. Any other error the interceptor returns as
  it is, and an envelope does not pass through it.

  \<open>refresh_request_ends\<close>: the request of the refresh in flight ends with \<open>requested\<close>,
  the error that \<open>normalizeError\<close> returns or the envelope. The result is \<open>None\<close> when
  the refresh does not settle.
\<close>

definition refresh_request_ends ::
  "secure_env \<Rightarrow> refresh_answer \<Rightarrow> int \<Rightarrow> JWTAuthService \<Rightarrow> JWTAuthService option" where
  "refresh_request_ends env requested now svc =
     (case refreshPromise svc of
        None \<Rightarrow> Some svc
      | Some (p, started) \<Rightarrow>
          (case started of
             ReturnsFalse \<Rightarrow> Some (refresh_completes env requested now svc)
           | Posts rt \<Rightarrow>
               (case requested of
                  Inl error \<Rightarrow>
                    if isAuthError error then None
                    else Some (refresh_completes env requested now svc)
                | Inr response \<Rightarrow> Some (refresh_completes env requested now svc))))"

subsection \<open>\<open>logout\<close> and two example states\<close>

text \<open>
  \<open>logout()\<close>: the notification of the remote authority is best effort and leaves the
  service as it is; then the local state is cleared and \<open>LOGOUT\<close> is emitted.
\<close>

definition logout :: "secure_env \<Rightarrow> JWTAuthService \<Rightarrow> JWTAuthService" where
  "logout env svc = emitAuthEvent LOGOUT (clearAuthState env svc)"

text \<open>A signed-in service, as \<open>login\<close> leaves it at time 0 for a token of 3600 seconds.\<close>

definition signed_in :: JWTAuthService where
  "signed_in =
     \<lparr>authState =
        \<lparr>isAuthenticated = True, user = Some ''u1'',
         tokenInfo = Some \<lparr>accessToken = ''access-1'', refreshToken = ''refresh-1'',
                           expiresIn = 3600, expiresAt = 3600000, tokenType = ''Bearer''\<rparr>,
         lastRefreshTime = 0\<rparr>,
      refreshPromise = None, refreshTimer = Some 3000000,
      secureStorage = Some \<lparr>stored_accessToken = ''access-1'',
                             stored_refreshToken = ''refresh-1'',
                             stored_expiresAt = 3600000\<rparr>,
      authEvents = [LOGIN_SUCCESS], nextPromise = 0, settled = Map.empty,
      refreshRequests = 0\<rparr>"

definition refreshed_answer :: refresh_answer where
  "refreshed_answer =
     Inr \<lparr>env_success = Some True,
          env_data = Some \<lparr>login_accessToken = ''access-2'', login_refreshToken = ''refresh-2'',
                           login_expiresIn = 3600, login_user = ''u1''\<rparr>,
          env_error_code = None, env_error_message = None\<rparr>"

text \<open>
  A refresh is started, \<open>logout()\<close> runs while the request is in flight, and then the
  request is answered successfully at time 1000.
\<close>

definition logout_during_refresh :: JWTAuthService where
  "logout_during_refresh =
     refresh_completes reliable_store refreshed_answer 1000
       (logout reliable_store (snd (refreshToken_call signed_in)))"

text \<open>The signed-in service with a refresh in flight, and an error of the server.\<close>

definition refresh_in_flight :: JWTAuthService where
  "refresh_in_flight = snd (refreshToken_call signed_in)"

definition server_error :: js_error where
  "server_error =
     \<lparr>err_name = None, err_message = Some ''Internal error'',
      err_code = Some ''SERVER_ERROR'', err_response = None\<rparr>"

text \<open>A secure store that rejects the write of the new credential.\<close>

definition store_rejects_save :: secure_env where
  "store_rejects_save =
     \<lparr>saveAuthTokens_error = Some (new_Error ''Could not encrypt the value for SecureStore''),
      clearAuthTokens_error = None\<rparr>"

section \<open>Realtime transport: \<open>WebSocketService\<close> (src/src/services/WebSocketService.ts)\<close>

datatype WebSocketState = CONNECTING | CONNECTED | DISCONNECTED | RECONNECTING | ERROR

datatype WebSocketEvent =
    NEW_MESSAGE | MESSAGE_READ | USER_STATUS | TYPING | HEARTBEAT | ERROR_EVENT

record WebSocketConfig =
  reconnectInterval :: int
  maxReconnectAttempts :: nat
  heartbeatInterval :: int
  connectionTimeout :: int

record WebSocketMessage =
  msg_type :: string
  msg_event :: WebSocketEvent
  msg_data :: string
  requestId :: "string option"

text \<open>
  The service. \<open>ws\<close> is the socket object (numbered in the order of creation) or
  \<open>None\<close> for \<open>null\<close>. A timer field says whether that timer is pending: a timer that
  has fired or was cleared is not. \<open>requestCallbacks\<close> holds the request ids that have a
  callback. Three fields record what the service did: the frames handed to
  \<open>ws.send\<close>, the number of sockets created, and the request ids for which a response
  timeout was set.
\<close>

record WebSocketService =
  ws :: "nat option"
  ws_config :: WebSocketConfig
  state :: WebSocketState
  reconnectAttempts :: nat
  reconnectTimer :: "int option"
  heartbeatTimer :: bool
  connectionTimer :: bool
  messageQueue :: "WebSocketMessage list"
  requestCallbacks :: "string list"
  transmitted :: "WebSocketMessage list"
  socketsOpened :: nat
  responseTimeouts :: "string list"

text \<open>
  What the collaborators answer when asked: \<open>authService.isAuthenticated()\<close>,
  \<open>networkManager.isConnected()\<close>, whether \<open>new WebSocket(url)\<close> throws, and whether
  \<open>ws.send(JSON.stringify(m))\<close> throws for a frame \<open>m\<close>.
\<close>

record ws_env =
  authenticated :: bool
  online :: bool
  socketThrows :: bool
  sendThrows :: "WebSocketMessage \<Rightarrow> bool"

definition setState :: "WebSocketState \<Rightarrow> WebSocketService \<Rightarrow> WebSocketService" where
  "setState newState svc = (if state svc \<noteq> newState then svc\<lparr>state := newState\<rparr> else svc)"

definition clearTimers :: "WebSocketService \<Rightarrow> WebSocketService" where
  "clearTimers svc = svc\<lparr>connectionTimer := False, reconnectTimer := None, heartbeatTimer := False\<rparr>"




definition disconnect :: "WebSocketService \<Rightarrow> WebSocketService" where
  "disconnect svc = setState DISCONNECTED ((clearTimers svc)\<lparr>reconnectAttempts := 0, ws := None\<rparr>)"



text \<open>\<open>sendQueuedMessages\<close>: a queued frame whose \<open>ws.send\<close> throws is queued again.\<close>

definition sendQueued :: "ws_env \<Rightarrow> WebSocketService \<Rightarrow> WebSocketMessage \<Rightarrow> WebSocketService" where
  "sendQueued env svc message =
     (if ws svc \<noteq> None \<and> state svc = CONNECTED then
        (if sendThrows env message then svc\<lparr>messageQueue := messageQueue svc @ [message]\<rparr>
         else svc\<lparr>transmitted := transmitted svc @ [message]\<rparr>)
      else svc)"

definition sendQueuedMessages :: "ws_env \<Rightarrow> WebSocketService \<Rightarrow> WebSocketService" where
  "sendQueuedMessages env svc =
     (if messageQueue svc = [] then svc
      else foldl (sendQueued env) (svc\<lparr>messageQueue := []\<rparr>) (messageQueue svc))"

definition startHeartbeat :: "WebSocketService \<Rightarrow> WebSocketService" where
  "startHeartbeat svc = svc\<lparr>heartbeatTimer := True\<rparr>"

text \<open>The handlers that \<open>setupWebSocketHandlers\<close> installs on the socket.\<close>

definition onopen :: "ws_env \<Rightarrow> WebSocketService \<Rightarrow> WebSocketService" where
  "onopen env svc =
     startHeartbeat
       (sendQueuedMessages env ((setState CONNECTED (clearTimers svc))\<lparr>reconnectAttempts := 0\<rparr>))"






subsection \<open>Sending\<close>

definition needsResponse :: "WebSocketEvent \<Rightarrow> bool" where
  "needsResponse event = False"

text \<open>
  The promise \<open>send\<close> returns: resolved with data or with \<open>undefined\<close>, rejected, or
  pending on a registered callback (then the 10-second timeout is set for it).
\<close>

datatype send_result = Resolved "string option" | Rejected | AwaitsResponse

definition send ::
  "ws_env \<Rightarrow> string \<Rightarrow> WebSocketMessage \<Rightarrow> WebSocketService \<Rightarrow> send_result \<times> WebSocketService" where
  "send env generatedId message svc =
     (let fullMessage = message\<lparr>requestId := Some generatedId\<rparr>
      in if state svc = CONNECTED \<and> ws svc \<noteq> None then
           (if sendThrows env fullMessage then (Rejected, svc)
            else
              (let svc1 = svc\<lparr>transmitted := transmitted svc @ [fullMessage]\<rparr>
               in if needsResponse (msg_event message)
                  then (AwaitsResponse,
                        svc1\<lparr>requestCallbacks := generatedId # requestCallbacks svc1,
                             responseTimeouts := generatedId # responseTimeouts svc1\<rparr>)
                  else (Resolved None, svc1)))
         else (Resolved None, svc\<lparr>messageQueue := messageQueue svc @ [fullMessage]\<rparr>))"

text \<open>
  \<open>handleMessage\<close> for a frame that parsed: a frame whose request id has a callback
  resolves that callback with the frame's data; every other frame is dispatched to the
  listeners of its event.
\<close>

datatype handled = ResolvesCallback string string | DispatchedAsEvent WebSocketEvent

definition handleMessage :: "WebSocketMessage \<Rightarrow> WebSocketService \<Rightarrow> handled \<times> WebSocketService" where
  "handleMessage message svc =
     (case requestId message of
        None \<Rightarrow> (DispatchedAsEvent (msg_event message), svc)
      | Some rid \<Rightarrow>
          if rid \<noteq> [] \<and> rid \<in> set (requestCallbacks svc)
          then (ResolvesCallback rid (msg_data message),
                svc\<lparr>requestCallbacks := removeAll rid (requestCallbacks svc)\<rparr>)
          else (DispatchedAsEvent (msg_event message), svc))"

subsection \<open>Events of the transport\<close>







text \<open>
  The service as the constructor leaves it, once connected: the default configuration,
  an open socket, the heartbeat running.
\<close>

definition ws_connected :: WebSocketService where
  "ws_connected =
     \<lparr>ws = Some 0,
      ws_config = \<lparr>reconnectInterval = 5000, maxReconnectAttempts = 5,
                   heartbeatInterval = 30000, connectionTimeout = 10000\<rparr>,
      state = CONNECTED, reconnectAttempts = 0, reconnectTimer = None,
      heartbeatTimer = True, connectionTimer = False, messageQueue = [],
      requestCallbacks = [], transmitted = [], socketsOpened = 1, responseTimeouts = []\<rparr>"

definition ws_env_up :: ws_env where
  "ws_env_up = \<lparr>authenticated = True, online = True, socketThrows = False,
                sendThrows = (\<lambda>m. False)\<rparr>"



section \<open>Sync engine: \<open>OfflineFirstSyncService\<close> (src/unnamed/part_007)\<close>

subsection \<open>Data\<close>

text \<open>
  Payloads (\<open>data: any\<close>) are opaque to the engine except for their \<open>id\<close>, by which
  the database upserts them. The \<open>timestamp\<close> of a local change is the ISO string of
  \<open>new Date()\<close>, compared with \<open>localeCompare\<close>; it is modelled by the instant it
  encodes, in milliseconds, which orders the same way.
\<close>

datatype SyncDataType = MESSAGES | CHATS | USERS | DEPARTMENTS

datatype SyncAction = CREATE | UPDATE | DELETE

record entity =
  entity_id :: string
  entity_body :: string

record LocalChange =
  lc_type :: SyncDataType
  lc_action :: SyncAction
  lc_data :: entity
  clientId :: string
  lc_timestamp :: nat

record SyncChange =
  sc_type :: SyncDataType
  sc_action :: SyncAction
  sc_data :: entity
  sc_id :: string
  sc_timestamp :: nat
  sc_version :: nat

datatype ConflictType = VERSION_CONFLICT | DELETED_ON_SERVER | PERMISSION_DENIED

record SyncConflict =
  conflict_clientId :: string
  conflict_type :: ConflictType
  serverData :: entity
  localData :: entity

record UploadChangesResponse =
  conflicts :: "SyncConflict list"
  processed :: "string list"

record SyncChangesResponse =
  changes :: "SyncChange list"
  hasMore :: bool
  nextToken :: "string option"

datatype ConflictResolutionStrategy = SERVER_WINS | CLIENT_WINS | MANUAL | MERGE

record SyncConfig =
  batchSize :: nat
  syncInterval :: nat
  retryAttempts :: nat
  sync_retryDelay :: nat
  conflictResolution :: ConflictResolutionStrategy

datatype SyncEvent =
    SYNC_STARTED | SYNC_COMPLETED | SYNC_FAILED | CONFLICT_DETECTED | DATA_CHANGED
  | ONLINE_STATUS_CHANGED

datatype SyncErrorType = UploadError | DownloadError | ConflictError

text \<open>A \<open>SyncError\<close> without its generated id and its timestamp.\<close>

record SyncError =
  error_type :: SyncErrorType
  error_message :: string

record SyncState =
  isOnline :: bool
  isSyncing :: bool
  lastSyncTime :: nat
  pendingChanges :: nat
  conflictCount :: nat
  errors :: "SyncError list"

text \<open>
  The collaborators. The key-value store (\<open>StorageService\<close> over \<open>AsyncStorage\<close>) is an
  association list from keys to the values the engine stores: a journal entry, a
  conflict, a number, or any other text; its operations succeed. \<open>getAllKeys\<close> lists
  the keys in the order of the list. The database holds three tables keyed by id, and
  rejects every statement when it has not been initialised.
\<close>

datatype stored =
    StoredChange LocalChange
  | StoredConflict SyncConflict
  | StoredNumber nat
  | StoredText string

type_synonym AsyncStorage = "(string \<times> stored) list"

record Database =
  db_initialized :: bool
  messages :: "(string \<times> entity) list"
  chats :: "(string \<times> entity) list"
  users :: "(string \<times> entity) list"

text \<open>
  The service, and what it did: the events emitted, the \<open>changes\<close> arrays posted to
  \<open>/sync/upload\<close> in order, the delays slept between upload attempts, and the number of
  debounced sync passes scheduled by \<open>recordLocalChange\<close>.
\<close>

record OfflineFirstSyncService =
  syncState :: SyncState
  sync_config :: SyncConfig
  storage :: AsyncStorage
  database :: Database
  syncEvents :: "SyncEvent list"
  uploaded :: "LocalChange list list"
  upload_sleeps :: "nat list"
  scheduledSyncs :: nat

text \<open>
  The remote authority, seen through the request client: to the upload of a batch,
  given the batches posted before it, it answers with an error or an envelope; to the
  \<open>k\<close>-th request for changes of a pass likewise. \<open>clock\<close> is \<open>Date.now()\<close> when the
  pass ends.
\<close>

record sync_env =
  upload_answer :: "LocalChange list list \<Rightarrow> LocalChange list \<Rightarrow> js_error + UploadChangesResponse envelope"
  changes_answer :: "nat \<Rightarrow> js_error + SyncChangesResponse envelope"
  clock :: nat

subsection \<open>The journal in the key-value store\<close>

definition setItem :: "string \<Rightarrow> stored \<Rightarrow> AsyncStorage \<Rightarrow> AsyncStorage" where
  "setItem key v st = AList.update key v st"

definition getItem :: "AsyncStorage \<Rightarrow> string \<Rightarrow> stored option" where
  "getItem st key = map_of st key"

definition removeItem :: "string \<Rightarrow> AsyncStorage \<Rightarrow> AsyncStorage" where
  "removeItem key st = AList.delete key st"

definition startsWith :: "string \<Rightarrow> string \<Rightarrow> bool" where
  "startsWith key pre = (take (length pre) key = pre)"

definition changeKey :: "string \<Rightarrow> string" where
  "changeKey cid = ''local_change_'' @ cid"

definition saveLocalChange :: "LocalChange \<Rightarrow> OfflineFirstSyncService \<Rightarrow> OfflineFirstSyncService" where
  "saveLocalChange change svc =
     svc\<lparr>storage := setItem (changeKey (clientId change)) (StoredChange change) (storage svc)\<rparr>"

text \<open>
  \<open>getLocalChanges\<close>: the keys that start with \<open>local_change_\<close>, each read back; a
  value that is not a journal entry is skipped; the result is sorted by timestamp
  (\<open>Array.prototype.sort\<close> is stable).
\<close>

definition readChange :: "AsyncStorage \<Rightarrow> string \<Rightarrow> LocalChange list" where
  "readChange st key = (case getItem st key of Some (StoredChange change) \<Rightarrow> [change] | _ \<Rightarrow> [])"

definition getLocalChanges :: "AsyncStorage \<Rightarrow> LocalChange list" where
  "getLocalChanges st =
     (let changeKeys = filter (\<lambda>key. startsWith key ''local_change_'') (map fst st)
      in sort_key lc_timestamp (concat (map (readChange st) changeKeys)))"

definition removeLocalChange :: "string \<Rightarrow> OfflineFirstSyncService \<Rightarrow> OfflineFirstSyncService" where
  "removeLocalChange cid svc = svc\<lparr>storage := removeItem (changeKey cid) (storage svc)\<rparr>"

definition removeProcessedChanges ::
  "string list \<Rightarrow> OfflineFirstSyncService \<Rightarrow> OfflineFirstSyncService" where
  "removeProcessedChanges clientIds svc = foldl (\<lambda>s cid. removeLocalChange cid s) svc clientIds"

definition updateLocalChange ::
  "string \<Rightarrow> entity \<Rightarrow> OfflineFirstSyncService \<Rightarrow> OfflineFirstSyncService" where
  "updateLocalChange cid newData svc =
     (case getItem (storage svc) (changeKey cid) of
        Some (StoredChange change) \<Rightarrow>
          svc\<lparr>storage := setItem (changeKey cid) (StoredChange (change\<lparr>lc_data := newData\<rparr>))
                             (storage svc)\<rparr>
      | _ \<Rightarrow> svc)"

definition updatePendingChangesCount :: "OfflineFirstSyncService \<Rightarrow> OfflineFirstSyncService" where
  "updatePendingChangesCount svc =
     svc\<lparr>syncState := (syncState svc)\<lparr>pendingChanges := length (getLocalChanges (storage svc))\<rparr>\<rparr>"

definition emitEvent :: "SyncEvent \<Rightarrow> OfflineFirstSyncService \<Rightarrow> OfflineFirstSyncService" where
  "emitEvent ev svc = svc\<lparr>syncEvents := syncEvents svc @ [ev]\<rparr>"

text \<open>\<open>addSyncError\<close> keeps the 50 most recent errors.\<close>

definition addSyncError ::
  "SyncErrorType \<Rightarrow> string \<Rightarrow> OfflineFirstSyncService \<Rightarrow> OfflineFirstSyncService" where
  "addSyncError kind msg svc =
     (let es = errors (syncState svc) @ [\<lparr>error_type = kind, error_message = msg\<rparr>];
          es' = (if length es > 50 then drop (length es - 50) es else es)
      in svc\<lparr>syncState := (syncState svc)\<lparr>errors := es'\<rparr>\<rparr>)"

subsection \<open>Recording a local change\<close>

text \<open>
  One call of \<open>recordLocalChange(type, action, data, id?)\<close>, with what the runtime
  supplies to it: the id \<open>generateClientId()\<close> returns and the time. The client id is
  \<open>id || this.generateClientId()\<close>: an absent or empty \<open>id\<close> gives the generated one.
  The result is the client id and the service; the \<open>setTimeout\<close> of the debounced pass
  is counted.
\<close>

record record_call =
  call_type :: SyncDataType
  call_action :: SyncAction
  call_data :: entity
  call_id :: "string option"
  generatedClientId :: string
  call_time :: nat

definition chosenClientId :: "record_call \<Rightarrow> string" where
  "chosenClientId call =
     (case call_id call of
        None \<Rightarrow> generatedClientId call
      | Some cid \<Rightarrow> if cid = [] then generatedClientId call else cid)"

definition recordLocalChange ::
  "record_call \<Rightarrow> OfflineFirstSyncService \<Rightarrow> string \<times> OfflineFirstSyncService" where
  "recordLocalChange call svc =
     (let cid = chosenClientId call;
          localChange = \<lparr>lc_type = call_type call, lc_action = call_action call,
                         lc_data = call_data call, clientId = cid,
                         lc_timestamp = call_time call\<rparr>;
          svc1 = saveLocalChange localChange svc;
          svc2 = updatePendingChangesCount svc1;
          svc3 = (if isOnline (syncState svc2) \<and> \<not> isSyncing (syncState svc2)
                  then svc2\<lparr>scheduledSyncs := scheduledSyncs svc2 + 1\<rparr> else svc2)
      in (cid, svc3))"

definition recordAll :: "record_call list \<Rightarrow> OfflineFirstSyncService \<Rightarrow> OfflineFirstSyncService" where
  "recordAll calls svc = foldl (\<lambda>s call. snd (recordLocalChange call s)) svc calls"

subsection \<open>Conflicts\<close>

definition saveConflictForManualResolution ::
  "SyncConflict \<Rightarrow> OfflineFirstSyncService \<Rightarrow> OfflineFirstSyncService" where
  "saveConflictForManualResolution conflict svc =
     svc\<lparr>storage := setItem (''conflict_'' @ conflict_clientId conflict) (StoredConflict conflict)
                        (storage svc)\<rparr>"

definition getUnresolvedConflicts :: "OfflineFirstSyncService \<Rightarrow> SyncConflict list" where
  "getUnresolvedConflicts svc = []"

definition mergeConflictData :: "entity \<Rightarrow> entity \<Rightarrow> entity option" where
  "mergeConflictData server_data local_data = None"

definition escalateToManual :: "SyncConflict \<Rightarrow> OfflineFirstSyncService \<Rightarrow> OfflineFirstSyncService" where
  "escalateToManual conflict svc =
     (let svc1 = saveConflictForManualResolution conflict svc;
          svc2 = svc1\<lparr>syncState := (syncState svc1)\<lparr>conflictCount := conflictCount (syncState svc1) + 1\<rparr>\<rparr>
      in emitEvent CONFLICT_DETECTED svc2)"

definition resolveConflict :: "SyncConflict \<Rightarrow> OfflineFirstSyncService \<Rightarrow> OfflineFirstSyncService" where
  "resolveConflict conflict svc =
     (case conflictResolution (sync_config svc) of
        SERVER_WINS \<Rightarrow> removeLocalChange (conflict_clientId conflict) svc
      | CLIENT_WINS \<Rightarrow> svc
      | MANUAL \<Rightarrow> escalateToManual conflict svc
      | MERGE \<Rightarrow>
          (case mergeConflictData (serverData conflict) (localData conflict) of
             Some mergedData \<Rightarrow> updateLocalChange (conflict_clientId conflict) mergedData svc
           | None \<Rightarrow> escalateToManual conflict svc))"

text \<open>
  \<open>handleUploadConflicts\<close> resolves each conflict in turn; its \<open>catch\<close> branch is for a
  storage operation that throws, which the store of this model does not.
\<close>

definition handleUploadConflicts ::
  "SyncConflict list \<Rightarrow> OfflineFirstSyncService \<Rightarrow> OfflineFirstSyncService" where
  "handleUploadConflicts cs svc = foldl (\<lambda>s conflict. resolveConflict conflict s) svc cs"

definition resolveConflicts :: "OfflineFirstSyncService \<Rightarrow> OfflineFirstSyncService" where
  "resolveConflicts svc =
     foldl (\<lambda>s conflict. resolveConflict conflict s) svc (getUnresolvedConflicts svc)"

subsection \<open>Upload\<close>

text \<open>
  \<open>chunkArray\<close>: \<open>for (let i = 0; i < array.length; i += size)\<close> pushes
  \<open>array.slice(i, i + size)\<close>. With \<open>size = 0\<close> and a non-empty array the loop does not
  end, and neither does the function here: its value is \<open>None\<close>.
\<close>

definition slice :: "'a list \<Rightarrow> nat \<Rightarrow> nat \<Rightarrow> 'a list" where
  "slice array i j = take (j - i) (drop i array)"

partial_function (option) chunkArray_loop ::
  "'a list \<Rightarrow> nat \<Rightarrow> nat \<Rightarrow> 'a list list \<Rightarrow> 'a list list option" where
  "chunkArray_loop array sz i chunks =
     (if i < length array
      then chunkArray_loop array sz (i + sz) (chunks @ [slice array i (i + sz)])
      else Some chunks)"

declare chunkArray_loop.simps [code]

definition chunkArray :: "'a list \<Rightarrow> nat \<Rightarrow> 'a list list option" where
  "chunkArray array sz = chunkArray_loop array sz 0 []"

text \<open>
  \<open>uploadBatch\<close>: \<open>while (attempt < retryAttempts)\<close>, post the batch. An envelope with
  \<open>success\<close> and \<open>data\<close> has its conflicts handled and its processed ids removed from
  the journal; any envelope ends the loop. An error counts the attempt and either is
  thrown (the attempts are used up) or is followed by a sleep of
  \<open>retryDelay * attempt\<close> and another round. The result is the error thrown, if any,
  and the service. With \<open>retryAttempts = 0\<close> the loop body never runs and the method
  returns normally.
\<close>

function uploadBatch_loop ::
  "sync_env \<Rightarrow> LocalChange list \<Rightarrow> nat \<Rightarrow> OfflineFirstSyncService
     \<Rightarrow> js_error option \<times> OfflineFirstSyncService" where
  "uploadBatch_loop env batch attempt svc =
     (if attempt < retryAttempts (sync_config svc) then
        (let svc1 = svc\<lparr>uploaded := uploaded svc @ [batch]\<rparr>
         in case upload_answer env (uploaded svc) batch of
              Inr response \<Rightarrow>
                (case env_data response of
                   Some d \<Rightarrow>
                     if env_success response = Some True then
                       (let svc2 = (if conflicts d \<noteq> [] then handleUploadConflicts (conflicts d) svc1
                                    else svc1)
                        in (None, removeProcessedChanges (processed d) svc2))
                     else (None, svc1)
                 | None \<Rightarrow> (None, svc1))
            | Inl error \<Rightarrow>
                if attempt + 1 \<ge> retryAttempts (sync_config svc) then (Some error, svc1)
                else uploadBatch_loop env batch (attempt + 1)
                       (svc1\<lparr>upload_sleeps := upload_sleeps svc1 @
                               [sync_retryDelay (sync_config svc1) * (attempt + 1)]\<rparr>))
      else (None, svc))"
  by pat_completeness auto
termination
  by (relation "measure (\<lambda>(env, batch, attempt, svc). retryAttempts (sync_config svc) - attempt)")
     auto

declare uploadBatch_loop.simps [simp del]

definition uploadBatch ::
  "sync_env \<Rightarrow> LocalChange list \<Rightarrow> OfflineFirstSyncService
     \<Rightarrow> js_error option \<times> OfflineFirstSyncService" where
  "uploadBatch env batch svc = uploadBatch_loop env batch 0 svc"

text \<open>The batches one after the other; the first error thrown ends the sequence.\<close>

fun uploadBatches ::
  "sync_env \<Rightarrow> LocalChange list list \<Rightarrow> OfflineFirstSyncService
     \<Rightarrow> js_error option \<times> OfflineFirstSyncService" where
  "uploadBatches env [] svc = (None, svc)"
| "uploadBatches env (batch # rest) svc =
     (case uploadBatch env batch svc of
        (Some error, svc1) \<Rightarrow> (Some error, svc1)
      | (None, svc1) \<Rightarrow> uploadBatches env rest svc1)"

definition uploadLocalChanges ::
  "sync_env \<Rightarrow> OfflineFirstSyncService \<Rightarrow> (js_error option \<times> OfflineFirstSyncService) option" where
  "uploadLocalChanges env svc =
     (let localChanges = getLocalChanges (storage svc)
      in if localChanges = [] then Some (None, svc)
         else (case chunkArray localChanges (batchSize (sync_config svc)) of
                 None \<Rightarrow> None
               | Some batches \<Rightarrow> Some (uploadBatches env batches svc)))"

subsection \<open>Download\<close>

definition upsert :: "entity \<Rightarrow> (string \<times> entity) list \<Rightarrow> (string \<times> entity) list" where
  "upsert row table = AList.update (entity_id row) row table"

text \<open>
  The save methods of the database, called with the payload of a server change, which
  is parsed JSON. Each rejects when the database has not been initialised. \<open>saveChat\<close>
  and \<open>saveUser\<close> run \<open>INSERT OR REPLACE\<close> with the fields of the payload, taken to
  satisfy the constraints of the table. \<open>saveMessage\<close> builds the arguments of its
  statement with \<open>message.timestamp.getTime()\<close>; the timestamp of a parsed payload is
  no \<open>Date\<close>, so the call throws inside the callback of \<open>db.transaction\<close>, which was
  given no error callback: the promise that \<open>saveMessage\<close> returned is neither resolved
  nor rejected, and the caller awaits it for ever. \<open>None\<close> stands for that.
\<close>

definition saveMessage :: "entity \<Rightarrow> Database \<Rightarrow> (js_error + Database) option" where
  "saveMessage row db =
     (if \<not> db_initialized db then Some (Inl (new_Error ''Database not initialized''))
      else None)"

definition saveChat :: "entity \<Rightarrow> Database \<Rightarrow> (js_error + Database) option" where
  "saveChat row db =
     (if \<not> db_initialized db then Some (Inl (new_Error ''Database not initialized''))
      else Some (Inr (db\<lparr>chats := upsert row (chats db)\<rparr>)))"

definition saveUser :: "entity \<Rightarrow> Database \<Rightarrow> (js_error + Database) option" where
  "saveUser row db =
     (if \<not> db_initialized db then Some (Inl (new_Error ''Database not initialized''))
      else Some (Inr (db\<lparr>users := upsert row (users db)\<rparr>)))"

text \<open>
  \<open>applyServerChange\<close>: create and update of a message, chat or user save the
  payload; a delete, and every change of a department, is only logged.
\<close>

definition applyServerChange :: "SyncChange \<Rightarrow> Database \<Rightarrow> (js_error + Database) option" where
  "applyServerChange change db =
     (case sc_type change of
        MESSAGES \<Rightarrow>
          (case sc_action change of
             DELETE \<Rightarrow> Some (Inr db) | _ \<Rightarrow> saveMessage (sc_data change) db)
      | CHATS \<Rightarrow>
          (case sc_action change of
             DELETE \<Rightarrow> Some (Inr db) | _ \<Rightarrow> saveChat (sc_data change) db)
      | USERS \<Rightarrow>
          (case sc_action change of
             DELETE \<Rightarrow> Some (Inr db) | _ \<Rightarrow> saveUser (sc_data change) db)
      | DEPARTMENTS \<Rightarrow> Some (Inr db))"

text \<open>
  \<open>applyServerChanges\<close> applies the changes in turn: a change that was applied is
  announced by \<open>DATA_CHANGED\<close>, a rejection is recorded as a download error, and a
  change whose application does not return keeps the loop from going on.
\<close>

definition applyOne ::
  "OfflineFirstSyncService \<Rightarrow> SyncChange \<Rightarrow> OfflineFirstSyncService option" where
  "applyOne svc change =
     (case applyServerChange change (database svc) of
        None \<Rightarrow> None
      | Some (Inr db) \<Rightarrow> Some (emitEvent DATA_CHANGED (svc\<lparr>database := db\<rparr>))
      | Some (Inl error) \<Rightarrow>
          Some (addSyncError DownloadError
            (''Failed to apply change: '' @
               (case err_message error of None \<Rightarrow> ''undefined'' | Some m \<Rightarrow> m)) svc))"

fun applyServerChanges ::
  "SyncChange list \<Rightarrow> OfflineFirstSyncService \<Rightarrow> OfflineFirstSyncService option" where
  "applyServerChanges [] svc = Some svc"
| "applyServerChanges (change # rest) svc =
     (case applyOne svc change of
        None \<Rightarrow> None
      | Some svc1 \<Rightarrow> applyServerChanges rest svc1)"

text \<open>
  \<open>downloadServerChanges\<close>: \<open>while (hasMore)\<close>, request the next page. An error is
  thrown on; an envelope without \<open>success\<close> and \<open>data\<close> breaks the loop; otherwise the
  page is applied and \<open>hasMore\<close> decides. A server that always reports more pages
  keeps the loop running for ever, and so does a page whose application does not
  return: the value is \<open>None\<close>. \<open>k\<close> counts the requests.
\<close>

partial_function (option) downloadLoop ::
  "sync_env \<Rightarrow> nat \<Rightarrow> OfflineFirstSyncService
     \<Rightarrow> (js_error option \<times> OfflineFirstSyncService) option" where
  "downloadLoop env k svc =
     (case changes_answer env k of
        Inl error \<Rightarrow> Some (Some error, svc)
      | Inr response \<Rightarrow>
          (case env_data response of
             None \<Rightarrow> Some (None, svc)
           | Some d \<Rightarrow>
               if env_success response = Some True then
                 (case (if changes d \<noteq> [] then applyServerChanges (changes d) svc
                        else Some svc) of
                    None \<Rightarrow> None
                  | Some svc1 \<Rightarrow>
                      if hasMore d then downloadLoop env (k + 1) svc1 else Some (None, svc1))
               else Some (None, svc)))"

declare downloadLoop.simps [code]

definition downloadServerChanges ::
  "sync_env \<Rightarrow> OfflineFirstSyncService \<Rightarrow> (js_error option \<times> OfflineFirstSyncService) option" where
  "downloadServerChanges env svc = downloadLoop env 0 svc"

subsection \<open>A sync pass\<close>

text \<open>
  \<open>startSync(force)\<close>. The pass is skipped when one is running (unless forced) or when
  offline. Otherwise upload, download and conflict resolution run in this order; the
  first error thrown is caught, recorded and announced by \<open>SYNC_FAILED\<close>; a pass without
  error stores the time, recounts the pending changes and announces \<open>SYNC_COMPLETED\<close>;
  \<open>isSyncing\<close> is reset in either case. The result says which of the three happened.
\<close>

datatype sync_outcome = Skipped | Completed | Failed js_error

definition setSyncing :: "bool \<Rightarrow> OfflineFirstSyncService \<Rightarrow> OfflineFirstSyncService" where
  "setSyncing b svc = svc\<lparr>syncState := (syncState svc)\<lparr>isSyncing := b\<rparr>\<rparr>"

definition syncFailed :: "js_error \<Rightarrow> OfflineFirstSyncService \<Rightarrow> OfflineFirstSyncService" where
  "syncFailed error svc =
     setSyncing False
       (emitEvent SYNC_FAILED
          (addSyncError UploadError (or_default (err_message error) ''Unknown sync error'') svc))"

definition syncCompleted :: "sync_env \<Rightarrow> OfflineFirstSyncService \<Rightarrow> OfflineFirstSyncService" where
  "syncCompleted env svc =
     (let svc1 = svc\<lparr>syncState := (syncState svc)\<lparr>lastSyncTime := clock env\<rparr>\<rparr>;
          svc2 = svc1\<lparr>storage := setItem ''last_sync_time'' (StoredNumber (clock env)) (storage svc1)\<rparr>;
          svc3 = updatePendingChangesCount svc2
      in setSyncing False (emitEvent SYNC_COMPLETED svc3))"

definition startSync ::
  "sync_env \<Rightarrow> bool \<Rightarrow> OfflineFirstSyncService \<Rightarrow> (sync_outcome \<times> OfflineFirstSyncService) option" where
  "startSync env force svc =
     (if isSyncing (syncState svc) \<and> \<not> force then Some (Skipped, svc)
      else if \<not> isOnline (syncState svc) then Some (Skipped, svc)
      else
        (case uploadLocalChanges env (emitEvent SYNC_STARTED (setSyncing True svc)) of
           None \<Rightarrow> None
         | Some (Some error, svc1) \<Rightarrow> Some (Failed error, syncFailed error svc1)
         | Some (None, svc1) \<Rightarrow>
             (case downloadServerChanges env svc1 of
                None \<Rightarrow> None
              | Some (Some error, svc2) \<Rightarrow> Some (Failed error, syncFailed error svc2)
              | Some (None, svc2) \<Rightarrow> Some (Completed, syncCompleted env (resolveConflicts svc2)))))"

subsection \<open>Notions used to state the properties of the engine\<close>

text \<open>
  The journal entries as they lie in the store, before sorting; the well-formedness of
  the store (keys are unique, and a journal entry lies under the key of its own client
  id); a remote authority that answers every upload with an envelope listing all
  submitted client ids as processed and no conflict; and the fact that the answer to
  the \<open>i\<close>-th upload of a log of uploads reported a conflict for a client id.
\<close>

definition storedEntry :: "string \<times> stored \<Rightarrow> LocalChange list" where
  "storedEntry p =
     (if startsWith (fst p) ''local_change_''
      then (case snd p of StoredChange change \<Rightarrow> [change] | _ \<Rightarrow> [])
      else [])"

definition storedEntries :: "AsyncStorage \<Rightarrow> LocalChange list" where
  "storedEntries st = concat (map storedEntry st)"

definition storage_wf :: "AsyncStorage \<Rightarrow> bool" where
  "storage_wf st \<longleftrightarrow>
     distinct (map fst st) \<and>
     (\<forall>key change. (key, StoredChange change) \<in> set st \<longrightarrow>
        startsWith key ''local_change_'' \<longrightarrow> key = changeKey (clientId change))"

definition journalIds :: "OfflineFirstSyncService \<Rightarrow> string set" where
  "journalIds svc = clientId ` set (getLocalChanges (storage svc))"

text \<open>The journal entry that \<open>recordLocalChange\<close> builds for a call.\<close>

definition recordedChange :: "record_call \<Rightarrow> LocalChange" where
  "recordedChange call =
     \<lparr>lc_type = call_type call, lc_action = call_action call, lc_data = call_data call,
      clientId = chosenClientId call, lc_timestamp = call_time call\<rparr>"

text \<open>
  Of a sequence of recording calls, those whose client id no later call repeats: a call
  that repeats a client id overwrites the entry of the earlier one.
\<close>

fun lastRecorded :: "record_call list \<Rightarrow> record_call list" where
  "lastRecorded [] = []"
| "lastRecorded (call # later) =
     (if chosenClientId call \<in> chosenClientId ` set later then lastRecorded later
      else call # lastRecorded later)"

text \<open>
  A remote authority whose every response to an upload lists all submitted client ids as
  processed and reports no conflict. An upload attempt may still fail without a
  response: by a timeout, a connectivity failure or an error status.
\<close>

definition acknowledges :: "sync_env \<Rightarrow> bool" where
  "acknowledges env \<longleftrightarrow>
     (\<forall>history batch response.
        upload_answer env history batch = Inr response \<longrightarrow>
        env_success response = Some True \<and>
        (\<exists>d. env_data response = Some d \<and> conflicts d = [] \<and>
             clientId ` set batch \<subseteq> set (processed d)))"

text \<open>
  Of the batches \<open>posted\<close> after the uploads \<open>history\<close>, in order, those that the remote
  authority answered with a response; the others are the attempts that failed.
\<close>

fun answered ::
  "sync_env \<Rightarrow> LocalChange list list \<Rightarrow> LocalChange list list \<Rightarrow> LocalChange list list" where
  "answered env history [] = []"
| "answered env history (batch # rest) =
     (case upload_answer env history batch of
        Inl error \<Rightarrow> answered env (history @ [batch]) rest
      | Inr response \<Rightarrow> batch # answered env (history @ [batch]) rest)"

definition conflictReported :: "sync_env \<Rightarrow> LocalChange list list \<Rightarrow> nat \<Rightarrow> string \<Rightarrow> bool" where
  "conflictReported env log i cid =
     (case upload_answer env (take i log) (log ! i) of
        Inl error \<Rightarrow> False
      | Inr response \<Rightarrow>
          env_success response = Some True \<and>
          (case env_data response of
             None \<Rightarrow> False
           | Some d \<Rightarrow> cid \<in> conflict_clientId ` set (conflicts d)))"

text \<open>What an envelope with \<open>success\<close> and \<open>data\<close> does to the service.\<close>

definition processAnswer ::
  "UploadChangesResponse \<Rightarrow> OfflineFirstSyncService \<Rightarrow> OfflineFirstSyncService" where
  "processAnswer d svc =
     removeProcessedChanges (processed d)
       (if conflicts d \<noteq> [] then handleUploadConflicts (conflicts d) svc else svc)"

text \<open>What every run of the upload loop keeps, whatever the remote authority answers.\<close>

definition uploadKeeps ::
  "LocalChange list set \<Rightarrow> OfflineFirstSyncService \<Rightarrow> OfflineFirstSyncService \<Rightarrow> bool" where
  "uploadKeeps batches svc svc' \<longleftrightarrow>
     storage_wf (storage svc') \<and>
     set (storedEntries (storage svc')) \<subseteq> set (storedEntries (storage svc)) \<and>
     database svc' = database svc \<and>
     sync_config svc' = sync_config svc \<and>
     (\<exists>posted. uploaded svc' = uploaded svc @ posted \<and> set posted \<subseteq> batches)"

text \<open>Every conflict that the uploads from index \<open>n0\<close> on reported for \<open>cid\<close> has
  left no journal entry with that client id.\<close>

definition conflictsGone :: "sync_env \<Rightarrow> nat \<Rightarrow> string \<Rightarrow> OfflineFirstSyncService \<Rightarrow> bool" where
  "conflictsGone env n0 cid svc \<longleftrightarrow>
     (\<forall>i. n0 \<le> i \<and> i < length (uploaded svc) \<and> conflictReported env (uploaded svc) i cid \<longrightarrow>
          cid \<notin> clientId ` set (storedEntries (storage svc)))"

subsection \<open>An example service and example calls\<close>

text \<open>The service as its constructor leaves it, over an empty store and database.\<close>

definition sync_initial :: OfflineFirstSyncService where
  "sync_initial =
     \<lparr>syncState = \<lparr>isOnline = True, isSyncing = False, lastSyncTime = 0, pendingChanges = 0,
                    conflictCount = 0, errors = []\<rparr>,
      sync_config = \<lparr>batchSize = 50, syncInterval = 30000, retryAttempts = 3,
                      sync_retryDelay = 5000, conflictResolution = SERVER_WINS\<rparr>,
      storage = [],
      database = \<lparr>db_initialized = True, messages = [], chats = [], users = []\<rparr>,
      syncEvents = [], uploaded = [], upload_sleeps = [], scheduledSyncs = 0\<rparr>"

definition call_create :: record_call where
  "call_create =
     \<lparr>call_type = MESSAGES, call_action = CREATE,
      call_data = \<lparr>entity_id = ''m1'', entity_body = ''hi''\<rparr>,
      call_id = Some ''c1'', generatedClientId = ''local_1_a'', call_time = 1\<rparr>"

definition call_update :: record_call where
  "call_update =
     \<lparr>call_type = MESSAGES, call_action = UPDATE,
      call_data = \<lparr>entity_id = ''m1'', entity_body = ''hello''\<rparr>,
      call_id = Some ''c1'', generatedClientId = ''local_2_b'', call_time = 2\<rparr>"

definition call_other :: record_call where
  "call_other =
     \<lparr>call_type = CHATS, call_action = CREATE,
      call_data = \<lparr>entity_id = ''chat7'', entity_body = ''team''\<rparr>,
      call_id = None, generatedClientId = ''local_3_c'', call_time = 3\<rparr>"

text \<open>
  Two remote authorities. The first acknowledges every batch and has no changes to
  download. The second refuses the change with the client id \<open>c1\<close>: it answers every
  upload with a conflict for it, reporting its own version of message \<open>m1\<close>, which has
  not changed since the last pass, so that it has no changes to download either.
\<close>

definition acking_env :: sync_env where
  "acking_env =
     \<lparr>upload_answer = (\<lambda>history batch.
         Inr \<lparr>env_success = Some True,
              env_data = Some \<lparr>conflicts = [], processed = map clientId batch\<rparr>,
              env_error_code = None, env_error_message = None\<rparr>),
      changes_answer = (\<lambda>k.
         Inr \<lparr>env_success = Some True,
              env_data = Some \<lparr>changes = [], hasMore = False, nextToken = None\<rparr>,
              env_error_code = None, env_error_message = None\<rparr>),
      clock = 100\<rparr>"

text \<open>
  A third remote authority: the first upload attempt of a pass times out, every later
  one is acknowledged.
\<close>

definition flaky_env :: sync_env where
  "flaky_env =
     acking_env\<lparr>upload_answer := (\<lambda>history batch.
        if history = [] then Inl (new_Error ''Request timeout'')
        else upload_answer acking_env history batch)\<rparr>"

text \<open>
  The service after the three example calls and a pass against the first remote
  authority; after one call and a pass against the third; and, with \<open>retryAttempts\<close>
  set to 0 by \<open>updateConfig\<close>, after one call and a pass against the first.
\<close>

definition pass_result ::
  "(sync_outcome \<times> OfflineFirstSyncService) option \<Rightarrow> OfflineFirstSyncService
     \<Rightarrow> OfflineFirstSyncService" where
  "pass_result r svc = (case r of Some (out, svc') \<Rightarrow> svc' | None \<Rightarrow> svc)"

definition after_acked_pass :: OfflineFirstSyncService where
  "after_acked_pass =
     pass_result
       (startSync acking_env False (recordAll [call_create, call_update, call_other] sync_initial))
       sync_initial"

definition after_flaky_pass :: OfflineFirstSyncService where
  "after_flaky_pass =
     pass_result (startSync flaky_env False (recordAll [call_create] sync_initial)) sync_initial"

definition no_upload_attempts :: OfflineFirstSyncService where
  "no_upload_attempts =
     sync_initial\<lparr>sync_config := (sync_config sync_initial)\<lparr>retryAttempts := 0\<rparr>\<rparr>"

definition after_pass_without_attempts :: OfflineFirstSyncService where
  "after_pass_without_attempts =
     pass_result (startSync acking_env False (recordAll [call_create] no_upload_attempts))
       no_upload_attempts"

definition conflict_env :: sync_env where
  "conflict_env =
     \<lparr>upload_answer = (\<lambda>history batch.
         Inr \<lparr>env_success = Some True,
              env_data = Some
                \<lparr>conflicts = [\<lparr>conflict_clientId = ''c1'', conflict_type = PERMISSION_DENIED,
                                serverData = \<lparr>entity_id = ''m1'', entity_body = ''server text''\<rparr>,
                                localData = \<lparr>entity_id = ''m1'', entity_body = ''hello''\<rparr>\<rparr>],
                 processed = []\<rparr>,
              env_error_code = None, env_error_message = None\<rparr>),
      changes_answer = (\<lambda>k.
         Inr \<lparr>env_success = Some True,
              env_data = Some \<lparr>changes = [], hasMore = False, nextToken = None\<rparr>,
              env_error_code = None, env_error_message = None\<rparr>),
      clock = 100\<rparr>"

text \<open>
  A service whose database holds message \<open>m1\<close> as the application edited it, with the
  change that records the edit in the journal; and the service after a pass against
  the second remote authority.
\<close>

definition conflicted_service :: OfflineFirstSyncService where
  "conflicted_service =
     (snd (recordLocalChange call_update sync_initial))
       \<lparr>database := \<lparr>db_initialized = True,
                      messages = [(''m1'', \<lparr>entity_id = ''m1'', entity_body = ''hello''\<rparr>)],
                      chats = [], users = []\<rparr>\<rparr>"

definition after_conflict_pass :: OfflineFirstSyncService where
  "after_conflict_pass =
     (case startSync conflict_env False conflicted_service of
        Some (out, svc') \<Rightarrow> svc'
      | None \<Rightarrow> conflicted_service)"

section \<open>Properties\<close>

subsection \<open>Retry back-off\<close>

lemma calculateRetryDelay_cap: "calculateRetryDelay cfg n \<le> 30000"
  by (simp add: calculateRetryDelay_def)

lemma calculateRetryDelay_mono:
  assumes "0 \<le> retryDelay cfg" and "1 \<le> n"
  shows "calculateRetryDelay cfg n \<le> calculateRetryDelay cfg (Suc n)"
proof -
  obtain m where n: "n = Suc m"
    using assms(2) by (cases n) auto
  have "retryDelay cfg * 2 ^ m \<le> retryDelay cfg * 2 ^ Suc m"
    using assms(1) by (intro mult_left_mono) auto
  then show ?thesis
    by (simp add: calculateRetryDelay_def n min_def)
qed

lemma calculateRetryDelay_double:
  assumes "0 \<le> retryDelay cfg" and "1 \<le> n" and "retryDelay cfg * 2 ^ n \<le> 30000"
  shows "calculateRetryDelay cfg (Suc n) = 2 * calculateRetryDelay cfg n"
proof -
  obtain m where n: "n = Suc m"
    using assms(2) by (cases n) auto
  have le: "retryDelay cfg * 2 ^ m \<le> retryDelay cfg * 2 ^ Suc m"
    using assms(1) by (intro mult_left_mono) auto
  with assms(3) have "retryDelay cfg * 2 ^ m \<le> 30000"
    by (simp add: n)
  with assms(3) show ?thesis
    by (simp add: calculateRetryDelay_def n min_def)
qed

text \<open>
  Claim C8. For every attempt number \<open>n \<ge> 1\<close> the delay computed by
  \<open>calculateRetryDelay\<close> is \<open>min (retryDelay * 2 ^ (n - 1)) 30000\<close> milliseconds; it never
  exceeds 30 seconds; and, the base delay being a non-negative duration, successive
  delays never decrease and double as long as the doubled value stays within the cap.
\<close>

theorem calculateRetryDelay_backoff:
  assumes "1 \<le> n"
  shows "calculateRetryDelay cfg n = min (retryDelay cfg * 2 ^ (n - 1)) 30000 \<and>
         calculateRetryDelay cfg n \<le> 30000 \<and>
         (0 \<le> retryDelay cfg \<longrightarrow>
            calculateRetryDelay cfg n \<le> calculateRetryDelay cfg (Suc n) \<and>
            (retryDelay cfg * 2 ^ n \<le> 30000 \<longrightarrow>
               calculateRetryDelay cfg (Suc n) = 2 * calculateRetryDelay cfg n))"
  using assms calculateRetryDelay_cap calculateRetryDelay_mono calculateRetryDelay_double
  by (simp add: calculateRetryDelay_def)

theorem calculateRetryDelay_backoff_witness:
  "calculateRetryDelay DEFAULT_CONFIG 1 = 1000 \<and>
   calculateRetryDelay DEFAULT_CONFIG 2 = 2000 \<and>
   calculateRetryDelay DEFAULT_CONFIG 5 = 16000 \<and>
   calculateRetryDelay DEFAULT_CONFIG 6 = 30000 \<and>
   calculateRetryDelay DEFAULT_CONFIG 2 \<le> calculateRetryDelay DEFAULT_CONFIG (Suc 2) \<and>
   calculateRetryDelay DEFAULT_CONFIG (Suc 2) = 2 * calculateRetryDelay DEFAULT_CONFIG 2"
  using calculateRetryDelay_backoff [of 2 DEFAULT_CONFIG]
  by (simp add: calculateRetryDelay_def DEFAULT_CONFIG_def)

subsection \<open>Token validity\<close>

lemma isAuthenticated_method_iff:
  "isAuthenticated_method svc now \<longleftrightarrow>
     isAuthenticated (authState svc) \<and>
     (\<exists>info. tokenInfo (authState svc) = Some info \<and> expiresAt info > now + 300000)"
  by (auto simp: isAuthenticated_method_def isCurrentTokenValid_def isTokenValid_def
           split: option.splits)

lemma getAccessToken_Some_iff:
  "getAccessToken svc now = Some tok \<longleftrightarrow>
     isAuthenticated (authState svc) \<and> tok \<noteq> [] \<and>
     (\<exists>info. tokenInfo (authState svc) = Some info \<and> expiresAt info > now + 300000 \<and>
             accessToken info = tok)"
  by (auto simp: getAccessToken_def isAuthenticated_method_iff split: option.splits)

text \<open>
  Claim C6, as the code has it. \<open>getAccessToken()\<close> returns the stored access token
  exactly when the \<open>isAuthenticated\<close> flag of the auth state is set, a credential is
  held whose \<open>expiresAt\<close> lies more than the 5-minute buffer after now, and the token is
  not the empty string; it returns \<open>null\<close> otherwise. \<open>isAuthenticated()\<close> is true exactly
  when the flag is set and such a credential is held.
\<close>

theorem getAccessToken_characterisation:
  "(getAccessToken svc now = Some tok \<longleftrightarrow>
      isAuthenticated (authState svc) \<and> tok \<noteq> [] \<and>
      (\<exists>info. tokenInfo (authState svc) = Some info \<and>
              expiresAt info > now + 5 * 60 * 1000 \<and> accessToken info = tok)) \<and>
   (getAccessToken svc now = None \<longleftrightarrow>
      \<not> (isAuthenticated (authState svc) \<and>
         (\<exists>info. tokenInfo (authState svc) = Some info \<and>
                 expiresAt info > now + 5 * 60 * 1000 \<and> accessToken info \<noteq> []))) \<and>
   (isAuthenticated_method svc now \<longleftrightarrow>
      isAuthenticated (authState svc) \<and>
      (\<exists>info. tokenInfo (authState svc) = Some info \<and> expiresAt info > now + 5 * 60 * 1000))"
proof -
  have none: "getAccessToken svc now = None \<longleftrightarrow> (\<forall>tok. getAccessToken svc now \<noteq> Some tok)"
    by (cases "getAccessToken svc now") auto
  show ?thesis
    unfolding none getAccessToken_Some_iff isAuthenticated_method_iff by auto
qed

theorem getAccessToken_characterisation_witness:
  "getAccessToken signed_in 1000 = Some ''access-1'' \<and>
   getAccessToken signed_in 3300000 = None \<and>
   isAuthenticated_method signed_in 1000"
  using getAccessToken_characterisation [of signed_in 1000 "''access-1''"]
        getAccessToken_characterisation [of signed_in 3300000 "''access-1''"]
  by (simp add: signed_in_def)

text \<open>
  The claim as it is written fails where a credential that passes the expiry check is
  held while the flag is not set: after \<open>logout()\<close> ran during a refresh that then
  succeeded, the new credential expires at 3601000, more than five minutes after time
  2000, and yet \<open>getAccessToken()\<close> is \<open>null\<close> and \<open>isAuthenticated()\<close> is false.
\<close>

theorem getAccessToken_counterexample:
  "tokenInfo (authState logout_during_refresh) =
     Some \<lparr>accessToken = ''access-2'', refreshToken = ''refresh-2'', expiresIn = 3600,
           expiresAt = 3601000, tokenType = ''Bearer''\<rparr> \<and>
   (3601000 :: int) > 2000 + 5 * 60 * 1000 \<and>
   getAccessToken logout_during_refresh 2000 = None \<and>
   \<not> isAuthenticated_method logout_during_refresh 2000"
  by (simp add: logout_during_refresh_def refresh_completes_def refreshToken_call_def
        performTokenRefresh_start_def performTokenRefresh_resume_def refreshFailure_def
        refreshed_answer_def signed_in_def logout_def clearAuthState_def emitAuthEvent_def
        saveTokenToStorage_def scheduleTokenRefresh_def getAccessToken_def
        isAuthenticated_method_def reliable_store_def newTokenInfo_def Let_def)

subsection \<open>Failure of a token refresh\<close>

lemma performTokenRefresh_posts:
  "performTokenRefresh_start svc = Posts rt \<Longrightarrow>
   performTokenRefresh env svc answer now = performTokenRefresh_resume env svc answer now"
  by (simp add: performTokenRefresh_def)

lemma refreshCaught_other:
  assumes "\<not> isAuthError error"
  shows "refreshCaught env error svc = (False, svc\<lparr>authEvents := authEvents svc @ [TOKEN_REFRESH_FAILED]\<rparr>)"
  using assms by (simp add: refreshCaught_def emitAuthEvent_def)

lemma resume_request_failed:
  "refreshFailure answer = Some error \<Longrightarrow>
   performTokenRefresh_resume env svc answer now = refreshCaught env error svc"
  by (simp add: performTokenRefresh_resume_def)

lemma resume_save_failed:
  assumes "refreshFailure answer = None" and "saveAuthTokens_error env = Some error"
  shows "\<exists>response refreshData.
           answer = Inr response \<and> env_data response = Some refreshData \<and>
           performTokenRefresh_resume env svc answer now =
             refreshCaught env error
               (svc\<lparr>authState := (authState svc)
                      \<lparr>tokenInfo := Some (newTokenInfo refreshData now),
                       user := Some (login_user refreshData),
                       lastRefreshTime := now\<rparr>\<rparr>)"
  using assms
  by (auto simp: performTokenRefresh_resume_def refreshFailure_def saveTokenToStorage_def Let_def
           split: sum.splits option.splits if_splits)

lemma refresh_completes_posts:
  assumes "refreshPromise svc = Some (p, Posts rt)"
  shows "refresh_completes env requested now svc =
           (snd (performTokenRefresh_resume env svc requested now))
             \<lparr>settled := (settled (snd (performTokenRefresh_resume env svc requested now)))
                  (p \<mapsto> fst (performTokenRefresh_resume env svc requested now)),
              refreshPromise := None\<rparr>"
  using assms by (simp add: refresh_completes_def split_beta)

text \<open>
  A rejection of the authentication class does not reach \<open>performTokenRefresh\<close>: the
  refresh does not settle.
\<close>

lemma auth_class_rejection_never_settles:
  "refreshPromise svc = Some (p, Posts rt) \<Longrightarrow> isAuthError error \<Longrightarrow>
   refresh_request_ends env (Inl error) now svc = None"
  by (simp add: refresh_request_ends_def)

lemma refresh_request_ends_settles:
  assumes "refreshPromise svc = Some (p, Posts rt)"
      and "\<And>error. requested = Inl error \<Longrightarrow> \<not> isAuthError error"
  shows "refresh_request_ends env requested now svc = Some (refresh_completes env requested now svc)"
  using assms by (simp add: refresh_request_ends_def split: sum.splits)

text \<open>
  Claim C7, as the code has it. A refresh is in flight and its request ends. When the
  request fails with an error that is not of the authentication class (\<open>isAuthError\<close>:
  code \<open>UNAUTHORIZED\<close> or \<open>TOKEN_EXPIRED\<close>), the refresh resolves with \<open>false\<close>, emits
  \<open>TOKEN_REFRESH_FAILED\<close> and leaves the auth state and the stored credential as they
  were: the service is still authenticated with the previous credential. When the
  request succeeds and the secure store rejects the new credential, with an error that
  is not of the authentication class, the refresh resolves with \<open>false\<close> and emits
  \<open>TOKEN_REFRESH_FAILED\<close> as well, the flag unchanged; the credential in memory is then
  the new one, the stored credential the old one.
\<close>

theorem refresh_failure_keeps_session:
  assumes "refreshPromise svc = Some (p, Posts rt)"
  shows "(refreshFailure requested = Some error \<and> \<not> isAuthError error \<longrightarrow>
            (\<exists>svc'. refresh_request_ends env requested now svc = Some svc' \<and>
               resolvesWith svc' p = Some False \<and>
               authState svc' = authState svc \<and>
               secureStorage svc' = secureStorage svc \<and>
               refreshTimer svc' = refreshTimer svc \<and>
               authEvents svc' = authEvents svc @ [TOKEN_REFRESH_FAILED] \<and>
               isAuthenticated_method svc' t = isAuthenticated_method svc t \<and>
               getAccessToken svc' t = getAccessToken svc t)) \<and>
         (refreshFailure requested = None \<and> saveAuthTokens_error env = Some error \<and>
          \<not> isAuthError error \<longrightarrow>
            (\<exists>svc' response refreshData.
               refresh_request_ends env requested now svc = Some svc' \<and>
               requested = Inr response \<and> env_data response = Some refreshData \<and>
               resolvesWith svc' p = Some False \<and>
               authEvents svc' = authEvents svc @ [TOKEN_REFRESH_FAILED] \<and>
               isAuthenticated (authState svc') = isAuthenticated (authState svc) \<and>
               tokenInfo (authState svc') = Some (newTokenInfo refreshData now) \<and>
               secureStorage svc' = secureStorage svc))"
proof -
  let ?svc' = "refresh_completes env requested now svc"
  note fin = refresh_completes_posts [OF assms, of env requested now]
  have request: "refresh_request_ends env requested now svc = Some ?svc' \<and>
               resolvesWith ?svc' p = Some False \<and>
               authState ?svc' = authState svc \<and>
               secureStorage ?svc' = secureStorage svc \<and>
               refreshTimer ?svc' = refreshTimer svc \<and>
               authEvents ?svc' = authEvents svc @ [TOKEN_REFRESH_FAILED] \<and>
               isAuthenticated_method ?svc' t = isAuthenticated_method svc t \<and>
               getAccessToken ?svc' t = getAccessToken svc t"
    if fail: "refreshFailure requested = Some error" and cls: "\<not> isAuthError error"
  proof -
    have "\<not> isAuthError e" if "requested = Inl e" for e
      using that fail cls by (simp add: refreshFailure_def)
    then have ends: "refresh_request_ends env requested now svc = Some ?svc'"
      by (rule refresh_request_ends_settles [OF assms])
    have "performTokenRefresh_resume env svc requested now =
            (False, svc\<lparr>authEvents := authEvents svc @ [TOKEN_REFRESH_FAILED]\<rparr>)"
      using fail cls by (simp add: resume_request_failed refreshCaught_other)
    with ends show ?thesis
      unfolding fin
      by (simp add: resolvesWith_def isAuthenticated_method_def isCurrentTokenValid_def
            getAccessToken_def)
  qed
  have save: "\<exists>response refreshData.
               refresh_request_ends env requested now svc = Some ?svc' \<and>
               requested = Inr response \<and> env_data response = Some refreshData \<and>
               resolvesWith ?svc' p = Some False \<and>
               authEvents ?svc' = authEvents svc @ [TOKEN_REFRESH_FAILED] \<and>
               isAuthenticated (authState ?svc') = isAuthenticated (authState svc) \<and>
               tokenInfo (authState ?svc') = Some (newTokenInfo refreshData now) \<and>
               secureStorage ?svc' = secureStorage svc"
    if ok: "refreshFailure requested = None" and rej: "saveAuthTokens_error env = Some error"
      and cls: "\<not> isAuthError error"
  proof -
    from resume_save_failed [OF ok rej, of svc now]
    obtain response refreshData where r: "requested = Inr response"
        and d: "env_data response = Some refreshData"
        and run: "performTokenRefresh_resume env svc requested now =
             refreshCaught env error
               (svc\<lparr>authState := (authState svc)
                      \<lparr>tokenInfo := Some (newTokenInfo refreshData now),
                       user := Some (login_user refreshData),
                       lastRefreshTime := now\<rparr>\<rparr>)"
      by blast
    have ends: "refresh_request_ends env requested now svc = Some ?svc'"
      using r by (intro refresh_request_ends_settles [OF assms]) simp
    show ?thesis
      using ends r d cls
      unfolding fin run
      by (simp add: refreshCaught_other resolvesWith_def)
  qed
  show ?thesis
    using request save by blast
qed

theorem refresh_failure_keeps_session_witness:
  "refreshPromise refresh_in_flight = Some (0, Posts ''refresh-1'') \<and>
   map_option authState
     (refresh_request_ends reliable_store (Inl server_error) 1000 refresh_in_flight) =
     Some (authState signed_in) \<and>
   map_option authEvents
     (refresh_request_ends reliable_store (Inl server_error) 1000 refresh_in_flight) =
     Some [LOGIN_SUCCESS, TOKEN_REFRESH_FAILED] \<and>
   map_option (\<lambda>svc. resolvesWith svc 0)
     (refresh_request_ends reliable_store (Inl server_error) 1000 refresh_in_flight) =
     Some (Some False)"
proof -
  have flight: "refreshPromise refresh_in_flight = Some (0, Posts ''refresh-1'')"
    by (simp add: refresh_in_flight_def refreshToken_call_def performTokenRefresh_start_def
          signed_in_def Let_def)
  have same: "authState refresh_in_flight = authState signed_in"
      "authEvents refresh_in_flight = [LOGIN_SUCCESS]"
    by (simp_all add: refresh_in_flight_def refreshToken_call_def performTokenRefresh_start_def
          signed_in_def Let_def)
  have fail: "refreshFailure (Inl server_error) = Some server_error"
      "\<not> isAuthError server_error"
    by (simp_all add: refreshFailure_def isAuthError_def server_error_def)
  from refresh_failure_keeps_session [OF flight, of "Inl server_error" server_error
         reliable_store 1000 0] fail same
  show ?thesis
    using flight by auto
qed

text \<open>
  The claim as it is written fails for a refresh that fails after the new credential
  was received: the request of the signed-in service is answered successfully at time
  1000 and the secure store rejects the write. The error is not of the authentication
  class, the refresh returns \<open>false\<close> and emits \<open>TOKEN_REFRESH_FAILED\<close>, the service is
  still authenticated, and the credential in memory is no longer the previous one.
\<close>

theorem refresh_fails_credential_changed_counterexample:
  "fst (performTokenRefresh store_rejects_save signed_in refreshed_answer 1000) = False \<and>
   saveAuthTokens_error store_rejects_save =
     Some (new_Error ''Could not encrypt the value for SecureStore'') \<and>
   \<not> isAuthError (new_Error ''Could not encrypt the value for SecureStore'') \<and>
   authEvents (snd (performTokenRefresh store_rejects_save signed_in refreshed_answer 1000)) =
     [LOGIN_SUCCESS, TOKEN_REFRESH_FAILED] \<and>
   isAuthenticated_method
     (snd (performTokenRefresh store_rejects_save signed_in refreshed_answer 1000)) 1000 \<and>
   map_option accessToken (tokenInfo (authState signed_in)) = Some ''access-1'' \<and>
   map_option accessToken
     (tokenInfo (authState
        (snd (performTokenRefresh store_rejects_save signed_in refreshed_answer 1000)))) =
     Some ''access-2'' \<and>
   tokenInfo (authState
        (snd (performTokenRefresh store_rejects_save signed_in refreshed_answer 1000))) \<noteq>
     tokenInfo (authState signed_in)"
  by (simp add: performTokenRefresh_def performTokenRefresh_start_def
        performTokenRefresh_resume_def refreshFailure_def refreshed_answer_def signed_in_def
        store_rejects_save_def saveTokenToStorage_def refreshCaught_def isAuthError_def
        new_Error_def emitAuthEvent_def newTokenInfo_def Let_def isAuthenticated_method_def
        isCurrentTokenValid_def isTokenValid_def)

subsection \<open>Single-flight refresh\<close>

lemma refreshToken_call_in_flight:
  "refreshPromise svc = Some (p, started) \<Longrightarrow> refreshToken_call svc = (p, svc)"
  by (simp add: refreshToken_call_def)

lemma refreshToken_calls_in_flight:
  "refreshPromise svc = Some (p, started) \<Longrightarrow> refreshToken_calls n svc = (replicate n p, svc)"
  by (induction n) (simp_all add: refreshToken_call_in_flight)

lemma performTokenRefresh_resume_result:
  "fst (performTokenRefresh_resume env svc answer now) =
     (refreshFailure answer = None \<and> saveAuthTokens_error env = None)"
  by (auto simp: performTokenRefresh_resume_def refreshFailure_def refreshCaught_def
        saveTokenToStorage_def Let_def
           split: option.splits sum.splits if_splits)

lemma performTokenRefresh_resume_requests:
  "refreshRequests (snd (performTokenRefresh_resume env svc answer now)) = refreshRequests svc"
  by (auto simp: performTokenRefresh_resume_def refreshCaught_def Let_def emitAuthEvent_def
        clearAuthState_def saveTokenToStorage_def scheduleTokenRefresh_def
           split: option.splits sum.splits if_splits)

lemma refresh_completes_in_flight:
  assumes "refreshPromise svc = Some (p, Posts rt)"
  shows "refreshPromise (refresh_completes env answer now svc) = None"
    and "refreshRequests (refresh_completes env answer now svc) = refreshRequests svc"
    and "resolvesWith (refresh_completes env answer now svc) p =
           Some (refreshFailure answer = None \<and> saveAuthTokens_error env = None)"
  using assms performTokenRefresh_resume_result [of env svc answer now]
        performTokenRefresh_resume_requests [of env svc answer now]
  by (simp_all add: refresh_completes_def resolvesWith_def split_beta Let_def)

text \<open>
  Claim C3. From a service with no refresh in flight that holds a refresh token, one
  call of \<open>refreshToken()\<close> starts the refresh and hands one request to the request
  client. Any number \<open>n\<close> of further calls made before that request is answered are
  handed the same promise and change nothing: no further request is issued. When the
  request is answered, the promise, and with it the first call and each of the \<open>n\<close>
  calls, resolves with the result of that one refresh, and the number of requests
  issued is still one more than before the first call.
\<close>

theorem refreshToken_single_flight:
  assumes "refreshPromise svc = None"
      and "performTokenRefresh_start svc = Posts rt"
  shows "(case refreshToken_call svc of (p, svc1) \<Rightarrow>
           (case refreshToken_calls n svc1 of (ps, svc2) \<Rightarrow>
              ps = replicate n p \<and> svc2 = svc1 \<and>
              refreshRequests svc2 = refreshRequests svc + 1 \<and>
              refreshRequests (refresh_completes env answer now svc2) = refreshRequests svc + 1 \<and>
              refreshPromise (refresh_completes env answer now svc2) = None \<and>
              (\<forall>q \<in> set (p # ps).
                 resolvesWith (refresh_completes env answer now svc2) q =
                   Some (fst (performTokenRefresh env svc answer now)))))"
proof -
  obtain p svc1 where call: "refreshToken_call svc = (p, svc1)"
    by (cases "refreshToken_call svc")
  from call assms have flight: "refreshPromise svc1 = Some (p, Posts rt)"
    and req: "refreshRequests svc1 = refreshRequests svc + 1"
    by (auto simp: refreshToken_call_def Let_def)
  have calls: "refreshToken_calls n svc1 = (replicate n p, svc1)"
    using flight by (rule refreshToken_calls_in_flight)
  have res: "fst (performTokenRefresh env svc answer now) =
               (refreshFailure answer = None \<and> saveAuthTokens_error env = None)"
    using assms(2) by (simp add: performTokenRefresh_posts performTokenRefresh_resume_result)
  show ?thesis
    using refresh_completes_in_flight [OF flight, of env answer now] req
    by (simp add: call calls res)
qed

theorem refreshToken_single_flight_witness:
  "(case refreshToken_call signed_in of (p, svc1) \<Rightarrow>
      (case refreshToken_calls 3 svc1 of (ps, svc2) \<Rightarrow>
         ps = [p, p, p] \<and>
         refreshRequests (refresh_completes reliable_store refreshed_answer 1000 svc2) = 1 \<and>
         resolvesWith (refresh_completes reliable_store refreshed_answer 1000 svc2) p = Some True \<and>
         list_all
           (\<lambda>q. resolvesWith (refresh_completes reliable_store refreshed_answer 1000 svc2) q =
                  Some True)
           ps))"
proof -
  have idle: "refreshPromise signed_in = None"
    by (simp add: signed_in_def)
  have posts: "performTokenRefresh_start signed_in = Posts ''refresh-1''"
    by (simp add: performTokenRefresh_start_def signed_in_def)
  have requests: "refreshRequests signed_in = 0"
    by (simp add: signed_in_def)
  have result: "fst (performTokenRefresh reliable_store signed_in refreshed_answer 1000) = True"
    by (simp add: performTokenRefresh_posts [OF posts] performTokenRefresh_resume_result
          refreshFailure_def refreshed_answer_def reliable_store_def)
  obtain p svc1 where call: "refreshToken_call signed_in = (p, svc1)"
    by (cases "refreshToken_call signed_in")
  obtain ps svc2 where calls: "refreshToken_calls 3 svc1 = (ps, svc2)"
    by (cases "refreshToken_calls 3 svc1")
  have three: "replicate 3 p = [p, p, p]"
    by (simp add: numeral_3_eq_3)
  show ?thesis
    using refreshToken_single_flight [OF idle posts, of 3 reliable_store refreshed_answer 1000]
    by (auto simp: call calls requests result three)
qed

subsection \<open>Which failures are retried\<close>

lemma attemptOnce_no_response: "attemptOnce r = Inl e \<Longrightarrow> err_response e = None"
  by (auto simp: attemptOnce_def performRequest_def parseResponse_def new_Error_def
           split: fetch_result.splits if_splits option.splits sum.splits json_body.splits)

lemma attemptOnce_retryable: "attemptOnce r = Inl e \<Longrightarrow> default_retryCondition e"
  by (simp add: default_retryCondition_def attemptOnce_no_response)

lemma request_loop_all_fail:
  assumes "\<And>k. \<exists>e. attemptOnce (net k) = Inl e"
      and "retryCondition cfg = default_retryCondition"
      and "attempt \<le> maxRetries cfg"
  shows "attempts (request_loop cfg net attempt delays lastError) = maxRetries cfg + 1"
  using assms(3)
proof (induction "maxRetries cfg - attempt" arbitrary: attempt delays lastError)
  case 0
  obtain e where e: "attemptOnce (net attempt) = Inl e"
    using assms(1) by blast
  from 0 have last: "\<not> attempt + 1 \<le> maxRetries cfg" and "attempt \<le> maxRetries cfg"
    by simp_all
  then show ?case
    by (subst request_loop.simps) (simp add: e)
next
  case (Suc d)
  obtain e where e: "attemptOnce (net attempt) = Inl e"
    using assms(1) by blast
  from Suc.hyps(2) have lt: "attempt + 1 \<le> maxRetries cfg" and d: "d = maxRetries cfg - (attempt + 1)"
    by simp_all
  have "attempts (request_loop cfg net (attempt + 1)
          (delays @ [calculateRetryDelay cfg (attempt + 1)]) (Some e)) = maxRetries cfg + 1"
    using Suc.hyps(1) [OF d lt] .
  then show ?case
    using lt e attemptOnce_retryable [OF e]
    by (subst request_loop.simps) (simp add: assms(2))
qed

text \<open>
  Claim C2 does not hold of the code. Every error that \<open>performRequest\<close> or
  \<open>parseResponse\<close> throws lacks a \<open>response\<close> property, so the first disjunct of
  \<open>retryCondition\<close>, \<open>!error.response\<close>, is true of it: a 404 is retried like a
  connectivity failure. Against a server that always answers 404 the default client
  makes four attempts, sleeping 1, 2 and 4 seconds between them, before the error
  reaches the caller.
\<close>

theorem request_retries_404:
  "default_retryCondition (new_Error ''HTTP 404: Not Found'') \<and>
   attempts (request DEFAULT_CONFIG always_404) = 4 \<and>
   slept (request DEFAULT_CONFIG always_404) = [1000, 2000, 4000] \<and>
   outcome (request DEFAULT_CONFIG always_404) = Inl (Some (new_Error ''HTTP 404: Not Found''))"
  by (simp add: request_def request_loop.simps attemptOnce_def performRequest_def
        always_404_def DEFAULT_CONFIG_def default_retryCondition_def new_Error_def
        calculateRetryDelay_def show_nat.simps)

subsection \<open>The reconnect cap\<close>














subsection \<open>Sending on the transport\<close>

text \<open>
  Claim C10. \<open>needsResponse\<close> is false for every event type. So \<open>send()\<close> never
  registers a response callback, never sets the 10-second response timeout and never
  returns a promise that is pending on a response or resolved with data; for an
  envelope handed to it while the transport is \<open>CONNECTED\<close>, and written to the socket
  without \<open>ws.send\<close> throwing, it resolves with no data. With no callback registered,
  every inbound frame, whatever its request id, is dispatched as an event and resolves
  no earlier \<open>send()\<close>.
\<close>

theorem send_resolves_without_data:
  "\<not> needsResponse event \<and>
   fst (send env generatedId message svc) \<noteq> AwaitsResponse \<and>
   fst (send env generatedId message svc) \<noteq> Resolved (Some d) \<and>
   requestCallbacks (snd (send env generatedId message svc)) = requestCallbacks svc \<and>
   responseTimeouts (snd (send env generatedId message svc)) = responseTimeouts svc \<and>
   (state svc = CONNECTED \<and> \<not> sendThrows env (message\<lparr>requestId := Some generatedId\<rparr>) \<longrightarrow>
      fst (send env generatedId message svc) = Resolved None) \<and>
   (requestCallbacks svc = [] \<longrightarrow>
      fst (handleMessage reply (snd (send env generatedId message svc))) =
        DispatchedAsEvent (msg_event reply))"
  by (auto simp: send_def needsResponse_def handleMessage_def Let_def split: option.splits)

theorem send_resolves_without_data_witness:
  "fst (send ws_env_up ''ws_1''
      \<lparr>msg_type = ''typing'', msg_event = TYPING, msg_data = ''{}'', requestId = None\<rparr>
      ws_connected) = Resolved None \<and>
   requestCallbacks (snd (send ws_env_up ''ws_1''
      \<lparr>msg_type = ''typing'', msg_event = TYPING, msg_data = ''{}'', requestId = None\<rparr>
      ws_connected)) = []"
  using send_resolves_without_data [where svc = ws_connected and env = ws_env_up
      and message = "\<lparr>msg_type = ''typing'', msg_event = TYPING, msg_data = ''{}'',
                       requestId = None\<rparr>"
      and generatedId = "''ws_1''"]
  by (simp add: ws_connected_def ws_env_up_def)

subsection \<open>The journal\<close>

lemma startsWith_changeKey [simp]: "startsWith (changeKey cid) ''local_change_''"
  by (simp add: startsWith_def changeKey_def)

lemma changeKey_inj [simp]: "changeKey a = changeKey b \<longleftrightarrow> a = b"
  by (simp add: changeKey_def)

lemma not_journal_keys [simp]:
  "\<not> startsWith (''conflict_'' @ x) ''local_change_''"
  "\<not> startsWith ''last_sync_time'' ''local_change_''"
  by (simp_all add: startsWith_def)

lemma readChange_storedEntry:
  assumes "distinct (map fst st)" and "(key, v) \<in> set st"
  shows "(if startsWith key ''local_change_'' then readChange st key else []) = storedEntry (key, v)"
proof -
  from assms have "map_of st key = Some v" by simp
  then show ?thesis
    by (simp add: readChange_def getItem_def storedEntry_def)
qed

lemma concat_map_filter_if:
  "concat (map f (filter P xs)) = concat (map (\<lambda>x. if P x then f x else []) xs)"
  by (induction xs) simp_all

lemma getLocalChanges_storedEntries:
  assumes "distinct (map fst st)"
  shows "getLocalChanges st = sort_key lc_timestamp (storedEntries st)"
proof -
  have "concat (map (readChange st) (filter (\<lambda>key. startsWith key ''local_change_'') (map fst st)))
        = concat (map (\<lambda>p. if startsWith (fst p) ''local_change_'' then readChange st (fst p) else []) st)"
    by (simp add: concat_map_filter_if comp_def)
  also have "\<dots> = concat (map storedEntry st)"
  proof -
    have "map (\<lambda>p. if startsWith (fst p) ''local_change_'' then readChange st (fst p) else []) st
          = map storedEntry st"
    proof (rule map_cong [OF refl])
      fix p assume "p \<in> set st"
      then have "(fst p, snd p) \<in> set st" by simp
      from readChange_storedEntry [OF assms this]
      show "(if startsWith (fst p) ''local_change_'' then readChange st (fst p) else []) =
            storedEntry p"
        by simp
    qed
    then show ?thesis by (rule arg_cong)
  qed
  finally show ?thesis
    by (simp add: getLocalChanges_def storedEntries_def)
qed

lemma set_storedEntries:
  "set (storedEntries st) =
     {change. \<exists>key. (key, StoredChange change) \<in> set st \<and> startsWith key ''local_change_''}"
  by (auto simp: storedEntries_def storedEntry_def split: if_splits stored.splits)

lemma storage_wf_Nil [simp]: "storage_wf []"
  by (simp add: storage_wf_def)

lemma storage_wf_Cons:
  "storage_wf (p # st) \<Longrightarrow> storage_wf st"
  by (auto simp: storage_wf_def)

lemma storage_wf_entry_key:
  "storage_wf st \<Longrightarrow> change \<in> set (storedEntries st) \<Longrightarrow>
   (changeKey (clientId change), StoredChange change) \<in> set st"
  by (auto simp: set_storedEntries storage_wf_def)

lemma distinct_clientIds_stored:
  "storage_wf st \<Longrightarrow> distinct (map clientId (storedEntries st))"
proof (induction st)
  case Nil
  then show ?case by (simp add: storedEntries_def)
next
  case (Cons p st)
  from Cons.prems have wf: "storage_wf st" by (rule storage_wf_Cons)
  have tl: "storedEntries (p # st) = storedEntry p @ storedEntries st"
    by (simp add: storedEntries_def)
  show ?case
  proof (cases "storedEntry p")
    case Nil
    with Cons.IH [OF wf] tl show ?thesis by simp
  next
    case (Cons change rest)
    then have p: "p = (fst p, StoredChange change)" and pre: "startsWith (fst p) ''local_change_''"
      and single: "storedEntry p = [change]"
      by (auto simp: storedEntry_def prod_eq_iff split: if_splits stored.splits)
    from p Cons.prems pre have key: "fst p = changeKey (clientId change)"
      unfolding storage_wf_def by (metis list.set_intros(1))
    have "clientId change \<notin> clientId ` set (storedEntries st)"
    proof
      assume "clientId change \<in> clientId ` set (storedEntries st)"
      then obtain c where c: "c \<in> set (storedEntries st)" and eq: "clientId c = clientId change"
        by auto
      from storage_wf_entry_key [OF wf c] eq key have "fst p \<in> fst ` set st"
        by force
      with Cons.prems show False
        by (simp add: storage_wf_def)
    qed
    with Cons.IH [OF wf] tl single show ?thesis by simp
  qed
qed

lemma distinct_clientIds_journal:
  "storage_wf st \<Longrightarrow> distinct (map clientId (getLocalChanges st))"
proof -
  assume wf: "storage_wf st"
  then have d: "distinct (map fst st)" by (simp add: storage_wf_def)
  have "distinct (map clientId (storedEntries st))"
    using wf by (rule distinct_clientIds_stored)
  then have "distinct (map clientId (sort_key lc_timestamp (storedEntries st)))"
    by (metis distinct_map distinct_sort set_sort)
  then show ?thesis
    by (simp add: getLocalChanges_storedEntries [OF d])
qed


lemma storedEntries_Cons: "storedEntries (p # st) = storedEntry p @ storedEntries st"
  by (simp add: storedEntries_def)

lemma storedEntries_delete:
  "storage_wf st \<Longrightarrow>
   storedEntries (AList.delete (changeKey cid) st) =
     filter (\<lambda>change. clientId change \<noteq> cid) (storedEntries st)"
proof (induction st)
  case Nil
  then show ?case by (simp add: storedEntries_def)
next
  case (Cons p st)
  from Cons.prems have wf: "storage_wf st" by (rule storage_wf_Cons)
  have head: "filter (\<lambda>change. clientId change \<noteq> cid) (storedEntry p) =
              (if fst p = changeKey cid then [] else storedEntry p)"
  proof (cases "storedEntry p")
    case Nil
    then show ?thesis by simp
  next
    case (Cons change rest)
    then have p: "p = (fst p, StoredChange change)" and pre: "startsWith (fst p) ''local_change_''"
      and single: "storedEntry p = [change]"
      by (auto simp: storedEntry_def prod_eq_iff split: if_splits stored.splits)
    from p Cons.prems pre have key: "fst p = changeKey (clientId change)"
      unfolding storage_wf_def by (metis list.set_intros(1))
    show ?thesis
      by (simp add: single key)
  qed
  show ?case
    using Cons.IH [OF wf] head
    by (cases p) (auto simp: storedEntries_Cons)
qed

lemma storage_wf_delete: "storage_wf st \<Longrightarrow> storage_wf (AList.delete key st)"
proof -
  assume wf: "storage_wf st"
  have "set (AList.delete key st) \<subseteq> set st"
    by (auto simp: AList.delete_eq)
  with wf show ?thesis
    unfolding storage_wf_def by (fastforce simp: distinct_delete)
qed

lemma set_update_subset: "set (AList.update key v st) \<subseteq> insert (key, v) (set st)"
  by (induction st) auto

lemma storage_wf_update:
  assumes "storage_wf st"
      and "\<And>change. v = StoredChange change \<Longrightarrow> startsWith key ''local_change_'' \<Longrightarrow>
             key = changeKey (clientId change)"
  shows "storage_wf (AList.update key v st)"
  unfolding storage_wf_def
proof (intro conjI allI impI)
  show "distinct (map fst (AList.update key v st))"
    using assms(1) by (simp add: storage_wf_def distinct_update)
next
  fix k change
  assume mem: "(k, StoredChange change) \<in> set (AList.update key v st)"
     and pre: "startsWith k ''local_change_''"
  from mem set_update_subset have "(k, StoredChange change) = (key, v) \<or> (k, StoredChange change) \<in> set st"
    by fastforce
  then show "k = changeKey (clientId change)"
    using assms pre by (auto simp: storage_wf_def)
qed

lemma storedEntries_update_other:
  "\<not> startsWith key ''local_change_'' \<Longrightarrow> storedEntries (AList.update key v st) = storedEntries st"
  by (induction st) (auto simp: storedEntries_Cons storedEntries_def storedEntry_def)


lemma set_update_distinct:
  "distinct (map fst st) \<Longrightarrow>
   set (AList.update key v st) = insert (key, v) {p \<in> set st. fst p \<noteq> key}"
  by (induction st) force+

lemma set_storedEntries_update_change:
  assumes "storage_wf st"
  shows "set (storedEntries (AList.update (changeKey (clientId change)) (StoredChange change) st)) =
         insert change {c \<in> set (storedEntries st). clientId c \<noteq> clientId change}"
proof -
  from assms have d: "distinct (map fst st)" by (simp add: storage_wf_def)
  have key: "key = changeKey (clientId c)"
    if "(key, StoredChange c) \<in> set st" "startsWith key ''local_change_''" for key c
    using assms that by (auto simp: storage_wf_def)
  show ?thesis
    unfolding set_storedEntries set_update_distinct [OF d]
    using key by (auto; force)
qed


lemma journal_set:
  "storage_wf st \<Longrightarrow> set (getLocalChanges st) = set (storedEntries st)"
  by (simp add: getLocalChanges_storedEntries storage_wf_def)

lemma journal_length_card:
  assumes "storage_wf st"
  shows "length (getLocalChanges st) = card (clientId ` set (getLocalChanges st))"
proof -
  have "card (set (map clientId (getLocalChanges st))) = length (map clientId (getLocalChanges st))"
    using distinct_clientIds_journal [OF assms] by (rule distinct_card)
  then show ?thesis by simp
qed

lemma recordLocalChange_storage:
  "storage (snd (recordLocalChange call svc)) =
     AList.update (changeKey (chosenClientId call))
       (StoredChange \<lparr>lc_type = call_type call, lc_action = call_action call,
                       lc_data = call_data call, clientId = chosenClientId call,
                       lc_timestamp = call_time call\<rparr>) (storage svc)"
  by (simp add: recordLocalChange_def Let_def saveLocalChange_def updatePendingChangesCount_def
        setItem_def)

lemma recordLocalChange_pending:
  "pendingChanges (syncState (snd (recordLocalChange call svc))) =
     length (getLocalChanges (storage (snd (recordLocalChange call svc))))"
  by (simp add: recordLocalChange_def Let_def saveLocalChange_def updatePendingChangesCount_def)

lemma recordLocalChange_fst: "fst (recordLocalChange call svc) = chosenClientId call"
  by (simp add: recordLocalChange_def Let_def)

lemma recordLocalChange_wf:
  "storage_wf (storage svc) \<Longrightarrow> storage_wf (storage (snd (recordLocalChange call svc)))"
  unfolding recordLocalChange_storage
  by (rule storage_wf_update) auto

lemma recordLocalChange_journal_set:
  assumes "storage_wf (storage svc)"
  shows "set (getLocalChanges (storage (snd (recordLocalChange call svc)))) =
     insert \<lparr>lc_type = call_type call, lc_action = call_action call,
             lc_data = call_data call, clientId = chosenClientId call,
             lc_timestamp = call_time call\<rparr>
       {c \<in> set (getLocalChanges (storage svc)). clientId c \<noteq> chosenClientId call}"
proof -
  let ?new = "\<lparr>lc_type = call_type call, lc_action = call_action call,
           lc_data = call_data call, clientId = chosenClientId call,
           lc_timestamp = call_time call\<rparr>"
  have "set (getLocalChanges (storage (snd (recordLocalChange call svc)))) =
        set (storedEntries (storage (snd (recordLocalChange call svc))))"
    by (rule journal_set [OF recordLocalChange_wf [OF assms]])
  also have "\<dots> = set (storedEntries (AList.update (changeKey (clientId ?new))
                         (StoredChange ?new) (storage svc)))"
    by (simp add: recordLocalChange_storage)
  also have "\<dots> = insert ?new {c \<in> set (storedEntries (storage svc)). clientId c \<noteq> clientId ?new}"
    by (rule set_storedEntries_update_change [OF assms])
  finally show ?thesis
    by (simp add: journal_set [OF assms])
qed

lemma recordLocalChange_journalIds:
  assumes "storage_wf (storage svc)"
  shows "journalIds (snd (recordLocalChange call svc)) = insert (chosenClientId call) (journalIds svc)"
  unfolding journalIds_def recordLocalChange_journal_set [OF assms]
  by auto

lemma recordAll_snoc:
  "recordAll (calls @ [call]) svc = snd (recordLocalChange call (recordAll calls svc))"
  by (simp add: recordAll_def)

lemma recordAll_wf:
  "storage_wf (storage svc) \<Longrightarrow> storage_wf (storage (recordAll calls svc))"
  by (induction calls rule: rev_induct) (simp_all add: recordAll_def recordLocalChange_wf)

lemma recordAll_journalIds:
  "storage_wf (storage svc) \<Longrightarrow>
   journalIds (recordAll calls svc) = journalIds svc \<union> chosenClientId ` set calls"
proof (induction calls rule: rev_induct)
  case Nil
  then show ?case by (simp add: recordAll_def)
next
  case (snoc call calls)
  then show ?case
    by (simp add: recordAll_snoc recordLocalChange_journalIds recordAll_wf)
qed

lemma recordAll_pending:
  assumes "storage_wf (storage svc)" and "calls \<noteq> []"
  shows "pendingChanges (syncState (recordAll calls svc)) =
         card (journalIds svc \<union> chosenClientId ` set calls)"
proof -
  from assms(2) obtain cs c where calls: "calls = cs @ [c]"
    by (cases calls rule: rev_cases) auto
  have wf: "storage_wf (storage (recordAll calls svc))"
    using assms(1) by (rule recordAll_wf)
  have "pendingChanges (syncState (recordAll calls svc)) =
        length (getLocalChanges (storage (recordAll calls svc)))"
    unfolding calls recordAll_snoc by (rule recordLocalChange_pending)
  also have "\<dots> = card (journalIds (recordAll calls svc))"
    unfolding journalIds_def by (rule journal_length_card [OF wf])
  finally show ?thesis
    by (simp add: recordAll_journalIds [OF assms(1)])
qed

lemma clientId_recordedChange [simp]: "clientId (recordedChange call) = chosenClientId call"
  by (simp add: recordedChange_def)

lemma lastRecorded_snoc:
  "lastRecorded (calls @ [call]) =
     filter (\<lambda>c. chosenClientId c \<noteq> chosenClientId call) (lastRecorded calls) @ [call]"
  by (induction calls) auto

lemma lastRecorded_ids: "chosenClientId ` set (lastRecorded calls) = chosenClientId ` set calls"
  by (induction calls) auto

lemma lastRecorded_distinct: "distinct (map chosenClientId (lastRecorded calls))"
proof (induction calls)
  case Nil
  then show ?case by simp
next
  case (Cons call later)
  have "chosenClientId call \<notin> chosenClientId ` set (lastRecorded later)"
    if "chosenClientId call \<notin> chosenClientId ` set later"
    using that by (simp add: lastRecorded_ids)
  with Cons show ?case by auto
qed

text \<open>
  The journal after any sequence of recording calls: the entries it held whose client
  id no call chose, and for every client id chosen the change of the last call that
  chose it.
\<close>

lemma recordAll_journal:
  assumes "storage_wf (storage svc)"
  shows "set (getLocalChanges (storage (recordAll calls svc))) =
           {c \<in> set (getLocalChanges (storage svc)). clientId c \<notin> chosenClientId ` set calls} \<union>
           recordedChange ` set (lastRecorded calls)"
proof (induction calls rule: rev_induct)
  case Nil
  then show ?case by (simp add: recordAll_def)
next
  case (snoc call calls)
  let ?prev = "recordAll calls svc"
  have wf: "storage_wf (storage ?prev)"
    using assms by (rule recordAll_wf)
  have step: "set (getLocalChanges (storage (recordAll (calls @ [call]) svc))) =
        insert (recordedChange call)
          {c \<in> set (getLocalChanges (storage ?prev)). clientId c \<noteq> chosenClientId call}"
    unfolding recordAll_snoc recordLocalChange_journal_set [OF wf]
    by (simp add: recordedChange_def)
  have old: "{c \<in> {c \<in> set (getLocalChanges (storage svc)).
                     clientId c \<notin> chosenClientId ` set calls}. clientId c \<noteq> chosenClientId call} =
             {c \<in> set (getLocalChanges (storage svc)).
                clientId c \<notin> chosenClientId ` set (calls @ [call])}"
    by auto
  have new: "{c \<in> recordedChange ` set (lastRecorded calls). clientId c \<noteq> chosenClientId call} =
             recordedChange `
               set (filter (\<lambda>c. chosenClientId c \<noteq> chosenClientId call) (lastRecorded calls))"
    by auto
  have "{c \<in> set (getLocalChanges (storage ?prev)). clientId c \<noteq> chosenClientId call} =
        {c \<in> set (getLocalChanges (storage svc)).
           clientId c \<notin> chosenClientId ` set (calls @ [call])} \<union>
        recordedChange `
          set (filter (\<lambda>c. chosenClientId c \<noteq> chosenClientId call) (lastRecorded calls))"
    unfolding snoc.IH old [symmetric] new [symmetric] by blast
  then show ?case
    unfolding step lastRecorded_snoc by auto
qed

text \<open>
  Claim C9. In a well-formed store (unique keys, every journal entry under the key of
  its own client id; \<open>recordLocalChange\<close> keeps the store so) the journal holds at most
  one entry per client id. \<open>recordLocalChange\<close> stores the change under
  \<open>local_change_<clientId>\<close>; the journal then holds exactly one entry with that client
  id, the new one, and its client ids are the old ones and the new one. When the id
  was already in the journal the entry is overwritten: the journal is as long as
  before. \<open>pendingChanges\<close> is the number of distinct client ids in the journal, also
  after any sequence of recording calls.
\<close>

theorem journal_one_entry_per_clientId:
  assumes "storage_wf (storage svc)"
  shows "fst (recordLocalChange call svc) = chosenClientId call \<and>
         storage_wf (storage (snd (recordLocalChange call svc))) \<and>
         distinct (map clientId (getLocalChanges (storage (snd (recordLocalChange call svc))))) \<and>
         getItem (storage (snd (recordLocalChange call svc)))
             (''local_change_'' @ chosenClientId call) =
           Some (StoredChange
             \<lparr>lc_type = call_type call, lc_action = call_action call, lc_data = call_data call,
              clientId = chosenClientId call, lc_timestamp = call_time call\<rparr>) \<and>
         (\<forall>c \<in> set (getLocalChanges (storage (snd (recordLocalChange call svc)))).
            clientId c = chosenClientId call \<longrightarrow>
            c = \<lparr>lc_type = call_type call, lc_action = call_action call, lc_data = call_data call,
                  clientId = chosenClientId call, lc_timestamp = call_time call\<rparr>) \<and>
         journalIds (snd (recordLocalChange call svc)) =
           insert (chosenClientId call) (journalIds svc) \<and>
         pendingChanges (syncState (snd (recordLocalChange call svc))) =
           card (journalIds (snd (recordLocalChange call svc))) \<and>
         (chosenClientId call \<in> journalIds svc \<longrightarrow>
            length (getLocalChanges (storage (snd (recordLocalChange call svc)))) =
              length (getLocalChanges (storage svc)) \<and>
            pendingChanges (syncState (snd (recordLocalChange call svc))) =
              length (getLocalChanges (storage svc))) \<and>
         (calls \<noteq> [] \<longrightarrow>
            pendingChanges (syncState (recordAll calls svc)) =
              card (journalIds svc \<union> chosenClientId ` set calls))"
proof -
  let ?svc' = "snd (recordLocalChange call svc)"
  have wf': "storage_wf (storage ?svc')"
    using assms by (rule recordLocalChange_wf)
  have ids: "journalIds ?svc' = insert (chosenClientId call) (journalIds svc)"
    using assms by (rule recordLocalChange_journalIds)
  have pend: "pendingChanges (syncState ?svc') = card (journalIds ?svc')"
    unfolding journalIds_def recordLocalChange_pending by (rule journal_length_card [OF wf'])
  have len: "length (getLocalChanges (storage ?svc')) = length (getLocalChanges (storage svc))"
    if "chosenClientId call \<in> journalIds svc"
    using that ids journal_length_card [OF wf'] journal_length_card [OF assms]
    by (simp add: journalIds_def insert_absorb)
  have stored: "getItem (storage ?svc') (''local_change_'' @ chosenClientId call) =
           Some (StoredChange
             \<lparr>lc_type = call_type call, lc_action = call_action call, lc_data = call_data call,
              clientId = chosenClientId call, lc_timestamp = call_time call\<rparr>)"
    by (simp add: getItem_def recordLocalChange_storage update_conv' changeKey_def)
  show ?thesis
    using wf' ids pend len stored recordLocalChange_fst [of call svc]
      distinct_clientIds_journal [OF wf'] recordLocalChange_journal_set [OF assms, of call]
      recordAll_pending [OF assms, of calls] recordLocalChange_pending [of call svc]
    by auto
qed

theorem journal_one_entry_per_clientId_witness:
  "pendingChanges (syncState (recordAll [call_create, call_update, call_other] sync_initial)) = 2 \<and>
   length (getLocalChanges (storage (snd (recordLocalChange call_update
      (snd (recordLocalChange call_create sync_initial)))))) =
     length (getLocalChanges (storage (snd (recordLocalChange call_create sync_initial))))"
proof -
  have wf0: "storage_wf (storage sync_initial)"
    by (simp add: sync_initial_def)
  have wf1: "storage_wf (storage (snd (recordLocalChange call_create sync_initial)))"
    using wf0 by (rule recordLocalChange_wf)
  have ids0: "journalIds sync_initial = {}"
    by (simp add: journalIds_def sync_initial_def getLocalChanges_def)
  have ids1: "journalIds (snd (recordLocalChange call_create sync_initial)) = {''c1''}"
    by (simp add: recordLocalChange_journalIds [OF wf0] ids0 chosenClientId_def call_create_def)
  have chosen: "chosenClientId call_update = ''c1''" "chosenClientId call_create = ''c1''"
      "chosenClientId call_other = ''local_3_c''"
    by (simp_all add: chosenClientId_def call_update_def call_create_def call_other_def)
  show ?thesis
    using journal_one_entry_per_clientId [OF wf0, of call_create
            "[call_create, call_update, call_other]"]
          journal_one_entry_per_clientId [OF wf1, of call_update "[]"]
    by (simp add: ids0 ids1 chosen)
qed

subsection \<open>Batches\<close>

lemma chunkArray_loop_total:
  assumes "0 < sz"
  shows "\<exists>cs. chunkArray_loop xs sz i chunks = Some (chunks @ cs) \<and> concat cs = drop i xs \<and>
              (\<forall>c \<in> set cs. c \<noteq> [] \<and> length c \<le> sz)"
proof (induction "length xs - i" arbitrary: i chunks rule: less_induct)
  case less
  show ?case
  proof (cases "i < length xs")
    case True
    with assms have "length xs - (i + sz) < length xs - i" by simp
    from less [OF this, of "chunks @ [slice xs i (i + sz)]"]
    obtain cs where cs: "chunkArray_loop xs sz (i + sz) (chunks @ [slice xs i (i + sz)]) =
                           Some ((chunks @ [slice xs i (i + sz)]) @ cs)"
      and cat: "concat cs = drop (i + sz) xs"
      and ne: "\<forall>c \<in> set cs. c \<noteq> [] \<and> length c \<le> sz"
      by blast
    have sl: "slice xs i (i + sz) = take sz (drop i xs)"
      by (simp add: slice_def)
    have "slice xs i (i + sz) @ drop (i + sz) xs = drop i xs"
      unfolding sl by (metis add.commute append_take_drop_id drop_drop)
    moreover have "slice xs i (i + sz) \<noteq> []" "length (slice xs i (i + sz)) \<le> sz"
      using True assms by (simp_all add: sl)
    ultimately show ?thesis
      using True cs cat ne
      by (subst chunkArray_loop.simps) (intro exI [of _ "slice xs i (i + sz) # cs"], simp)
  next
    case False
    then show ?thesis
      by (subst chunkArray_loop.simps) simp
  qed
qed

lemma chunkArray_total:
  assumes "0 < sz"
  shows "\<exists>cs. chunkArray xs sz = Some cs \<and> concat cs = xs \<and> (\<forall>c \<in> set cs. c \<noteq> [] \<and> length c \<le> sz)"
  using chunkArray_loop_total [OF assms, of xs 0 "[]"]
  by (simp add: chunkArray_def)

subsection \<open>Journal operations of the service\<close>

lemma removeLocalChange_frame [simp]:
  "database (removeLocalChange cid svc) = database svc"
  "uploaded (removeLocalChange cid svc) = uploaded svc"
  "sync_config (removeLocalChange cid svc) = sync_config svc"
  by (simp_all add: removeLocalChange_def)

lemma removeLocalChange_wf:
  "storage_wf (storage svc) \<Longrightarrow> storage_wf (storage (removeLocalChange cid svc))"
  by (simp add: removeLocalChange_def removeItem_def storage_wf_delete)

lemma removeLocalChange_entries:
  "storage_wf (storage svc) \<Longrightarrow>
   storedEntries (storage (removeLocalChange cid svc)) =
     filter (\<lambda>c. clientId c \<noteq> cid) (storedEntries (storage svc))"
  by (simp add: removeLocalChange_def removeItem_def storedEntries_delete)

lemma removeProcessedChanges_props:
  "storage_wf (storage svc) \<Longrightarrow>
   storage_wf (storage (removeProcessedChanges ps svc)) \<and>
   storedEntries (storage (removeProcessedChanges ps svc)) =
     filter (\<lambda>c. clientId c \<notin> set ps) (storedEntries (storage svc)) \<and>
   database (removeProcessedChanges ps svc) = database svc \<and>
   uploaded (removeProcessedChanges ps svc) = uploaded svc \<and>
   sync_config (removeProcessedChanges ps svc) = sync_config svc"
proof (induction ps rule: rev_induct)
  case Nil
  then show ?case by (simp add: removeProcessedChanges_def)
next
  case (snoc cid ps)
  have step: "removeProcessedChanges (ps @ [cid]) svc =
              removeLocalChange cid (removeProcessedChanges ps svc)"
    by (simp add: removeProcessedChanges_def)
  from snoc show ?case
    unfolding step
    by (simp add: removeLocalChange_wf removeLocalChange_entries conj_commute)
qed

lemma escalateToManual_storage:
  "storage (escalateToManual conflict svc) =
     AList.update (''conflict_'' @ conflict_clientId conflict) (StoredConflict conflict) (storage svc)"
  by (simp add: escalateToManual_def saveConflictForManualResolution_def Let_def emitEvent_def
        setItem_def)

lemma escalateToManual_props:
  assumes "storage_wf (storage svc)"
  shows "storage_wf (storage (escalateToManual conflict svc))"
    and "storedEntries (storage (escalateToManual conflict svc)) = storedEntries (storage svc)"
    and "database (escalateToManual conflict svc) = database svc"
    and "uploaded (escalateToManual conflict svc) = uploaded svc"
    and "sync_config (escalateToManual conflict svc) = sync_config svc"
proof -
  show "storage_wf (storage (escalateToManual conflict svc))"
    unfolding escalateToManual_storage using assms by (rule storage_wf_update) simp
  show "storedEntries (storage (escalateToManual conflict svc)) = storedEntries (storage svc)"
    unfolding escalateToManual_storage by (rule storedEntries_update_other) (rule not_journal_keys)
qed (simp_all add: escalateToManual_def saveConflictForManualResolution_def Let_def emitEvent_def)

lemma resolveConflict_props:
  assumes "storage_wf (storage svc)"
  shows "storage_wf (storage (resolveConflict conflict svc))"
    and "storedEntries (storage (resolveConflict conflict svc)) =
           (if conflictResolution (sync_config svc) = SERVER_WINS
            then filter (\<lambda>c. clientId c \<noteq> conflict_clientId conflict) (storedEntries (storage svc))
            else storedEntries (storage svc))"
    and "database (resolveConflict conflict svc) = database svc"
    and "uploaded (resolveConflict conflict svc) = uploaded svc"
    and "sync_config (resolveConflict conflict svc) = sync_config svc"
  using assms escalateToManual_props [OF assms, of conflict]
  by (auto simp: resolveConflict_def mergeConflictData_def removeLocalChange_wf
        removeLocalChange_entries split: ConflictResolutionStrategy.splits)

lemma resolveAll_props:
  assumes "storage_wf (storage svc)"
  shows "storage_wf (storage (foldl (\<lambda>s conflict. resolveConflict conflict s) svc cs)) \<and>
     storedEntries (storage (foldl (\<lambda>s conflict. resolveConflict conflict s) svc cs)) =
           (if conflictResolution (sync_config svc) = SERVER_WINS
            then filter (\<lambda>c. clientId c \<notin> conflict_clientId ` set cs) (storedEntries (storage svc))
            else storedEntries (storage svc)) \<and>
     database (foldl (\<lambda>s conflict. resolveConflict conflict s) svc cs) = database svc \<and>
     uploaded (foldl (\<lambda>s conflict. resolveConflict conflict s) svc cs) = uploaded svc \<and>
     sync_config (foldl (\<lambda>s conflict. resolveConflict conflict s) svc cs) = sync_config svc"
proof (induction cs rule: rev_induct)
  case Nil
  then show ?case using assms by simp
next
  case (snoc conflict cs)
  let ?s = "foldl (\<lambda>s conflict. resolveConflict conflict s) svc cs"
  from snoc have wf: "storage_wf (storage ?s)" by simp
  show ?case
    using snoc resolveConflict_props [OF wf, of conflict]
    by (auto simp: conj_commute)
qed


lemma handleUploadConflicts_props:
  assumes "storage_wf (storage svc)"
  shows "storage_wf (storage (handleUploadConflicts cs svc))"
    and "storedEntries (storage (handleUploadConflicts cs svc)) =
           (if conflictResolution (sync_config svc) = SERVER_WINS
            then filter (\<lambda>c. clientId c \<notin> conflict_clientId ` set cs) (storedEntries (storage svc))
            else storedEntries (storage svc))"
    and "database (handleUploadConflicts cs svc) = database svc"
    and "uploaded (handleUploadConflicts cs svc) = uploaded svc"
    and "sync_config (handleUploadConflicts cs svc) = sync_config svc"
  using resolveAll_props [OF assms, of cs]
  by (simp_all add: handleUploadConflicts_def)

lemma processAnswer_props:
  assumes "storage_wf (storage svc)"
  shows "storage_wf (storage (processAnswer d svc))"
    and "storedEntries (storage (processAnswer d svc)) =
           filter (\<lambda>c. clientId c \<notin> set (processed d) \<and>
                        (conflictResolution (sync_config svc) = SERVER_WINS \<longrightarrow>
                           clientId c \<notin> conflict_clientId ` set (conflicts d)))
             (storedEntries (storage svc))"
    and "database (processAnswer d svc) = database svc"
    and "uploaded (processAnswer d svc) = uploaded svc"
    and "sync_config (processAnswer d svc) = sync_config svc"
proof -
  let ?s = "if conflicts d \<noteq> [] then handleUploadConflicts (conflicts d) svc else svc"
  have wf: "storage_wf (storage ?s)"
    using assms handleUploadConflicts_props(1) [OF assms] by simp
  have ent: "storedEntries (storage ?s) =
           (if conflictResolution (sync_config svc) = SERVER_WINS
            then filter (\<lambda>c. clientId c \<notin> conflict_clientId ` set (conflicts d))
                   (storedEntries (storage svc))
            else storedEntries (storage svc))"
    using handleUploadConflicts_props(2) [OF assms, of "conflicts d"] by simp
  have fr: "database ?s = database svc" "uploaded ?s = uploaded svc"
      "sync_config ?s = sync_config svc"
    using handleUploadConflicts_props(3-5) [OF assms, of "conflicts d"] by simp_all
  note rp = removeProcessedChanges_props [OF wf, of "processed d"]
  show "storage_wf (storage (processAnswer d svc))"
    using rp by (simp add: processAnswer_def)
  show "storedEntries (storage (processAnswer d svc)) =
           filter (\<lambda>c. clientId c \<notin> set (processed d) \<and>
                        (conflictResolution (sync_config svc) = SERVER_WINS \<longrightarrow>
                           clientId c \<notin> conflict_clientId ` set (conflicts d)))
             (storedEntries (storage svc))"
    using rp ent by (auto simp: processAnswer_def intro: filter_cong)
  show "database (processAnswer d svc) = database svc"
       "uploaded (processAnswer d svc) = uploaded svc"
       "sync_config (processAnswer d svc) = sync_config svc"
    using rp fr by (simp_all add: processAnswer_def)
qed

lemma uploadBatch_loop_unfold:
  "uploadBatch_loop env batch attempt svc =
     (if attempt < retryAttempts (sync_config svc) then
        (case upload_answer env (uploaded svc) batch of
           Inr response \<Rightarrow>
             (case env_data response of
                Some d \<Rightarrow>
                  if env_success response = Some True
                  then (None, processAnswer d (svc\<lparr>uploaded := uploaded svc @ [batch]\<rparr>))
                  else (None, svc\<lparr>uploaded := uploaded svc @ [batch]\<rparr>)
              | None \<Rightarrow> (None, svc\<lparr>uploaded := uploaded svc @ [batch]\<rparr>))
         | Inl error \<Rightarrow>
             if attempt + 1 \<ge> retryAttempts (sync_config svc)
             then (Some error, svc\<lparr>uploaded := uploaded svc @ [batch]\<rparr>)
             else uploadBatch_loop env batch (attempt + 1)
                    (svc\<lparr>uploaded := uploaded svc @ [batch],
                         upload_sleeps := upload_sleeps svc @
                            [sync_retryDelay (sync_config svc) * (attempt + 1)]\<rparr>))
      else (None, svc))"
  by (subst uploadBatch_loop.simps)
     (simp add: Let_def processAnswer_def split: sum.splits option.splits)


lemma uploadKeeps_refl: "storage_wf (storage svc) \<Longrightarrow> uploadKeeps B svc svc"
  by (simp add: uploadKeeps_def)

lemma uploadKeeps_trans:
  "uploadKeeps B s1 s2 \<Longrightarrow> uploadKeeps B s2 s3 \<Longrightarrow> uploadKeeps B s1 s3"
  unfolding uploadKeeps_def by (elim conjE exE) (auto intro!: exI)

lemma uploadKeeps_mono: "uploadKeeps A s1 s2 \<Longrightarrow> A \<subseteq> B \<Longrightarrow> uploadKeeps B s1 s2"
  unfolding uploadKeeps_def by blast

lemma uploadKeeps_post:
  assumes "storage_wf (storage svc)"
  shows "uploadKeeps {batch} svc (svc\<lparr>uploaded := uploaded svc @ [batch]\<rparr>)"
    and "uploadKeeps {batch} svc (svc\<lparr>uploaded := uploaded svc @ [batch], upload_sleeps := sl\<rparr>)"
    and "uploadKeeps {batch} svc (processAnswer d (svc\<lparr>uploaded := uploaded svc @ [batch]\<rparr>))"
proof -
  let ?s = "svc\<lparr>uploaded := uploaded svc @ [batch]\<rparr>"
  have wf: "storage_wf (storage ?s)" using assms by simp
  show "uploadKeeps {batch} svc ?s"
    using assms by (simp add: uploadKeeps_def)
  show "uploadKeeps {batch} svc (svc\<lparr>uploaded := uploaded svc @ [batch], upload_sleeps := sl\<rparr>)"
    using assms by (simp add: uploadKeeps_def)
  show "uploadKeeps {batch} svc (processAnswer d ?s)"
    using processAnswer_props [OF wf, of d]
    by (auto simp: uploadKeeps_def)
qed

lemma uploadBatch_loop_keeps:
  "storage_wf (storage svc) \<Longrightarrow>
   uploadKeeps {batch} svc (snd (uploadBatch_loop env batch attempt svc))"
proof (induction env batch attempt svc rule: uploadBatch_loop.induct)
  case (1 env batch attempt svc)
  note wf = "1.prems"
  show ?case
  proof (cases "attempt < retryAttempts (sync_config svc)")
    case False
    then show ?thesis
      using wf by (subst uploadBatch_loop_unfold) (simp add: uploadKeeps_refl)
  next
    case True
    show ?thesis
    proof (cases "upload_answer env (uploaded svc) batch")
      case (Inr response)
      then show ?thesis
        using True uploadKeeps_post(1,3) [OF wf]
        by (subst uploadBatch_loop_unfold) (simp split: option.splits)
    next
      case (Inl error)
      show ?thesis
      proof (cases "attempt + 1 \<ge> retryAttempts (sync_config svc)")
        case True
        then show ?thesis
          using \<open>attempt < retryAttempts (sync_config svc)\<close> Inl uploadKeeps_post(1) [OF wf]
          by (subst uploadBatch_loop_unfold) simp
      next
        case False
        let ?s = "svc\<lparr>uploaded := uploaded svc @ [batch],
                      upload_sleeps := upload_sleeps svc @
                         [sync_retryDelay (sync_config svc) * (attempt + 1)]\<rparr>"
        have step: "uploadKeeps {batch} svc ?s"
          by (rule uploadKeeps_post(2) [OF wf])
        have "uploadKeeps {batch} ?s (snd (uploadBatch_loop env batch (attempt + 1) ?s))"
          using "1.IH" [OF True refl Inl] False wf by simp
        with step have "uploadKeeps {batch} svc (snd (uploadBatch_loop env batch (attempt + 1) ?s))"
          by (rule uploadKeeps_trans)
        then show ?thesis
          using True Inl False
          by (subst uploadBatch_loop_unfold) simp
      qed
    qed
  qed
qed


subsection \<open>An acknowledging remote authority\<close>

lemma answered_append:
  "answered env history (xs @ ys) = answered env history xs @ answered env (history @ xs) ys"
  by (induction xs arbitrary: history) (simp_all split: sum.splits)

lemma chunkArray_loop_ends:
  fixes xs :: "'a list"
  assumes "chunkArray_loop xs sz i chunks = Some cs"
  shows "i < length xs \<longrightarrow> 0 < sz"
proof (rule chunkArray_loop.raw_induct
    [where P = "\<lambda>xs sz i chunks cs. i < length xs \<longrightarrow> 0 < sz", OF _ assms])
  fix loop :: "'a list \<Rightarrow> nat \<Rightarrow> nat \<Rightarrow> 'a list list \<Rightarrow> 'a list list option"
  fix xs sz i chunks cs
  assume IH: "\<And>xs sz i chunks cs. loop xs sz i chunks = Some cs \<Longrightarrow> i < length xs \<longrightarrow> 0 < sz"
     and eq: "(if i < length xs then loop xs sz (i + sz) (chunks @ [slice xs i (i + sz)])
               else Some chunks) = Some cs"
  show "i < length xs \<longrightarrow> 0 < sz"
  proof
    assume less: "i < length xs"
    with eq have "loop xs sz (i + sz) (chunks @ [slice xs i (i + sz)]) = Some cs" by simp
    from IH [OF this] less show "0 < sz" by (cases sz) auto
  qed
qed

text \<open>A chunking that ends has cut the array into consecutive chunks.\<close>

lemma chunkArray_Some:
  assumes "chunkArray xs sz = Some cs"
  shows "concat cs = xs"
proof (cases "xs = []")
  case True
  with assms show ?thesis
    by (simp add: chunkArray_def chunkArray_loop.simps)
next
  case False
  with chunkArray_loop_ends [of xs sz 0 "[]" cs] assms have "0 < sz"
    by (simp add: chunkArray_def)
  from chunkArray_total [OF this, of xs] assms show ?thesis by auto
qed

text \<open>
  One batch against an acknowledging remote authority, when \<open>uploadBatch\<close> returns
  normally: the batch was posted once more than attempts failed, the last post was
  answered, and no entry of the batch is left in the journal.
\<close>

lemma uploadBatch_loop_acked:
  "acknowledges env \<Longrightarrow> storage_wf (storage svc) \<Longrightarrow>
   attempt < retryAttempts (sync_config svc) \<Longrightarrow>
   uploadBatch_loop env batch attempt svc = (None, svc') \<Longrightarrow>
   (\<exists>k. uploaded svc' = uploaded svc @ replicate (Suc k) batch \<and>
        attempt + k < retryAttempts (sync_config svc) \<and>
        answered env (uploaded svc) (replicate (Suc k) batch) = [batch]) \<and>
   storage_wf (storage svc') \<and> sync_config svc' = sync_config svc \<and>
   database svc' = database svc \<and>
   set (storedEntries (storage svc')) \<subseteq>
     {c \<in> set (storedEntries (storage svc)). clientId c \<notin> clientId ` set batch}"
proof (induction env batch attempt svc rule: uploadBatch_loop.induct)
  case (1 env batch attempt svc)
  note ack = "1.prems"(1) and wf = "1.prems"(2) and less = "1.prems"(3) and run = "1.prems"(4)
  let ?p = "svc\<lparr>uploaded := uploaded svc @ [batch]\<rparr>"
  have wfp: "storage_wf (storage ?p)" using wf by simp
  show ?case
  proof (cases "upload_answer env (uploaded svc) batch")
    case ans: (Inr response)
    from ack ans obtain d where ok: "env_success response = Some True"
        and d: "env_data response = Some d" and none: "conflicts d = []"
        and all: "clientId ` set batch \<subseteq> set (processed d)"
      unfolding acknowledges_def by blast
    from run less ans ok d have svc': "svc' = processAnswer d ?p"
      by (subst (asm) uploadBatch_loop_unfold) simp
    have "uploaded svc' = uploaded svc @ replicate (Suc 0) batch \<and>
          attempt + 0 < retryAttempts (sync_config svc) \<and>
          answered env (uploaded svc) (replicate (Suc 0) batch) = [batch]"
      using processAnswer_props(4) [OF wfp, of d] less ans by (simp add: svc')
    then have "\<exists>k. uploaded svc' = uploaded svc @ replicate (Suc k) batch \<and>
        attempt + k < retryAttempts (sync_config svc) \<and>
        answered env (uploaded svc) (replicate (Suc k) batch) = [batch]"
      by (rule exI)
    moreover have "storage_wf (storage svc')" "sync_config svc' = sync_config svc"
        "database svc' = database svc"
      using processAnswer_props(1,3,5) [OF wfp, of d] by (simp_all add: svc')
    moreover have "set (storedEntries (storage svc')) \<subseteq>
        {c \<in> set (storedEntries (storage svc)). clientId c \<notin> clientId ` set batch}"
      using processAnswer_props(2) [OF wfp, of d] all by (auto simp: svc')
    ultimately show ?thesis by blast
  next
    case ans: (Inl error)
    show ?thesis
    proof (cases "attempt + 1 \<ge> retryAttempts (sync_config svc)")
      case True
      with run less ans show ?thesis
        by (subst (asm) uploadBatch_loop_unfold) simp
    next
      case False
      let ?s = "svc\<lparr>uploaded := uploaded svc @ [batch],
                    upload_sleeps := upload_sleeps svc @
                       [sync_retryDelay (sync_config svc) * (attempt + 1)]\<rparr>"
      from run less ans False have again: "uploadBatch_loop env batch (attempt + 1) ?s = (None, svc')"
        by (subst (asm) uploadBatch_loop_unfold) simp
      have wfs: "storage_wf (storage ?s)" using wf by simp
      have more: "attempt + 1 < retryAttempts (sync_config ?s)" using False by simp
      have "(\<exists>k. uploaded svc' = uploaded ?s @ replicate (Suc k) batch \<and>
                attempt + 1 + k < retryAttempts (sync_config ?s) \<and>
                answered env (uploaded ?s) (replicate (Suc k) batch) = [batch]) \<and>
            storage_wf (storage svc') \<and> sync_config svc' = sync_config ?s \<and>
            database svc' = database ?s \<and>
            set (storedEntries (storage svc')) \<subseteq>
               {c \<in> set (storedEntries (storage ?s)). clientId c \<notin> clientId ` set batch}"
        using "1.IH" [OF less refl ans] False ack wfs more again by simp
      then obtain k where up: "uploaded svc' = uploaded ?s @ replicate (Suc k) batch"
          and k: "attempt + 1 + k < retryAttempts (sync_config ?s)"
          and a: "answered env (uploaded ?s) (replicate (Suc k) batch) = [batch]"
          and rest: "storage_wf (storage svc')" "sync_config svc' = sync_config ?s"
            "database svc' = database ?s"
            "set (storedEntries (storage svc')) \<subseteq>
               {c \<in> set (storedEntries (storage ?s)). clientId c \<notin> clientId ` set batch}"
        by blast
      have "uploaded svc' = uploaded svc @ replicate (Suc (Suc k)) batch \<and>
            attempt + Suc k < retryAttempts (sync_config svc) \<and>
            answered env (uploaded svc) (replicate (Suc (Suc k)) batch) = [batch]"
        using up k a ans by simp
      then have "\<exists>k. uploaded svc' = uploaded svc @ replicate (Suc k) batch \<and>
          attempt + k < retryAttempts (sync_config svc) \<and>
          answered env (uploaded svc) (replicate (Suc k) batch) = [batch]"
        by (rule exI)
      with rest show ?thesis by simp
    qed
  qed
qed

lemma uploadBatches_acked:
  "acknowledges env \<Longrightarrow> storage_wf (storage svc) \<Longrightarrow> 0 < retryAttempts (sync_config svc) \<Longrightarrow>
   uploadBatches env batches svc = (None, svc') \<Longrightarrow>
   (\<exists>posted. uploaded svc' = uploaded svc @ posted \<and>
        answered env (uploaded svc) posted = batches \<and> set posted \<subseteq> set batches \<and>
        length posted \<le> retryAttempts (sync_config svc) * length batches) \<and>
   storage_wf (storage svc') \<and> sync_config svc' = sync_config svc \<and>
   database svc' = database svc \<and>
   set (storedEntries (storage svc')) \<subseteq>
     {c \<in> set (storedEntries (storage svc)). clientId c \<notin> clientId ` set (concat batches)}"
proof (induction batches arbitrary: svc)
  case Nil
  then show ?case by simp
next
  case (Cons batch rest)
  obtain r svc1 where one: "uploadBatch env batch svc = (r, svc1)"
    by (cases "uploadBatch env batch svc")
  with Cons.prems(4) have r: "r = None" and more: "uploadBatches env rest svc1 = (None, svc')"
    by (auto split: option.splits)
  from uploadBatch_loop_acked [OF Cons.prems(1,2), of 0 batch svc1] Cons.prems(3) one r
  obtain k where up1: "uploaded svc1 = uploaded svc @ replicate (Suc k) batch"
      and k: "k < retryAttempts (sync_config svc)"
      and a1: "answered env (uploaded svc) (replicate (Suc k) batch) = [batch]"
      and wf1: "storage_wf (storage svc1)" and cfg1: "sync_config svc1 = sync_config svc"
      and db1: "database svc1 = database svc"
      and ent1: "set (storedEntries (storage svc1)) \<subseteq>
             {c \<in> set (storedEntries (storage svc)). clientId c \<notin> clientId ` set batch}"
    by (auto simp: uploadBatch_def)
  from Cons.prems(3) cfg1 have pos1: "0 < retryAttempts (sync_config svc1)" by simp
  from Cons.IH [OF Cons.prems(1) wf1 pos1 more]
  obtain posted where up: "uploaded svc' = uploaded svc1 @ posted"
      and a: "answered env (uploaded svc1) posted = rest"
      and sub: "set posted \<subseteq> set rest"
      and len: "length posted \<le> retryAttempts (sync_config svc1) * length rest"
      and wf: "storage_wf (storage svc')" and cfg: "sync_config svc' = sync_config svc1"
      and db: "database svc' = database svc1"
      and ent: "set (storedEntries (storage svc')) \<subseteq>
             {c \<in> set (storedEntries (storage svc1)). clientId c \<notin> clientId ` set (concat rest)}"
    by blast
  let ?posted = "replicate (Suc k) batch @ posted"
  have "uploaded svc' = uploaded svc @ ?posted"
    using up up1 by simp
  moreover have "answered env (uploaded svc) ?posted = batch # rest"
    using a a1 up1 by (simp only: answered_append) simp
  moreover have "set ?posted \<subseteq> set (batch # rest)"
    using sub by auto
  moreover have "length ?posted \<le> retryAttempts (sync_config svc) * length (batch # rest)"
    using len k cfg1 by simp
  ultimately have "\<exists>posted. uploaded svc' = uploaded svc @ posted \<and>
        answered env (uploaded svc) posted = batch # rest \<and> set posted \<subseteq> set (batch # rest) \<and>
        length posted \<le> retryAttempts (sync_config svc) * length (batch # rest)"
    by blast
  moreover have "set (storedEntries (storage svc')) \<subseteq>
     {c \<in> set (storedEntries (storage svc)). clientId c \<notin> clientId ` set (concat (batch # rest))}"
    using ent ent1 by auto
  ultimately show ?case
    using wf cfg cfg1 db db1 by simp
qed

lemma uploadLocalChanges_acked:
  assumes "acknowledges env" and "storage_wf (storage svc)"
      and "0 < retryAttempts (sync_config svc)"
      and "uploadLocalChanges env svc = Some (None, svc')"
  shows "\<exists>posted. uploaded svc' = uploaded svc @ posted \<and>
           concat (answered env (uploaded svc) posted) = getLocalChanges (storage svc) \<and>
           set posted \<subseteq> set (answered env (uploaded svc) posted) \<and>
           length posted \<le> retryAttempts (sync_config svc) *
             length (answered env (uploaded svc) posted) \<and>
           storage_wf (storage svc') \<and> getLocalChanges (storage svc') = []"
proof (cases "getLocalChanges (storage svc) = []")
  case True
  with assms(4) have "svc' = svc" by (simp add: uploadLocalChanges_def)
  with True assms(2) show ?thesis by (intro exI [of _ "[]"]) simp
next
  case False
  with assms(4) obtain batches
    where ch: "chunkArray (getLocalChanges (storage svc)) (batchSize (sync_config svc)) = Some batches"
      and run: "uploadBatches env batches svc = (None, svc')"
    by (auto simp: uploadLocalChanges_def split: option.splits)
  from chunkArray_Some [OF ch] have cat: "concat batches = getLocalChanges (storage svc)" .
  from uploadBatches_acked [OF assms(1-3) run]
  obtain posted where up: "uploaded svc' = uploaded svc @ posted"
      and a: "answered env (uploaded svc) posted = batches"
      and sub: "set posted \<subseteq> set batches"
      and len: "length posted \<le> retryAttempts (sync_config svc) * length batches"
      and wf: "storage_wf (storage svc')"
      and ent: "set (storedEntries (storage svc')) \<subseteq>
             {c \<in> set (storedEntries (storage svc)). clientId c \<notin> clientId ` set (concat batches)}"
    by blast
  have "{c \<in> set (storedEntries (storage svc)).
          clientId c \<notin> clientId ` set (storedEntries (storage svc))} = {}"
    by auto
  with ent cat journal_set [OF assms(2)] have "set (storedEntries (storage svc')) \<subseteq> {}"
    by simp
  then have "set (storedEntries (storage svc')) = {}"
    by (rule subset_antisym) simp
  then have "set (getLocalChanges (storage svc')) = {}"
    by (simp add: journal_set [OF wf])
  then have empty: "getLocalChanges (storage svc') = []" by simp
  show ?thesis
    using up a sub len wf empty cat by (intro exI [of _ posted]) simp
qed

subsection \<open>What a pass keeps\<close>

lemma chunkArray_loop_subset:
  fixes xs :: "'a list"
  assumes "chunkArray_loop xs sz i chunks = Some cs"
  shows "set (concat cs) \<subseteq> set (concat chunks) \<union> set xs"
proof (rule chunkArray_loop.raw_induct
    [where P = "\<lambda>xs sz i chunks cs. set (concat cs) \<subseteq> set (concat chunks) \<union> set xs", OF _ assms])
  fix loop :: "'a list \<Rightarrow> nat \<Rightarrow> nat \<Rightarrow> 'a list list \<Rightarrow> 'a list list option"
  fix xs sz i chunks cs
  assume IH: "\<And>xs sz i chunks cs. loop xs sz i chunks = Some cs \<Longrightarrow>
                set (concat cs) \<subseteq> set (concat chunks) \<union> set xs"
     and eq: "(if i < length xs then loop xs sz (i + sz) (chunks @ [slice xs i (i + sz)])
               else Some chunks) = Some cs"
  show "set (concat cs) \<subseteq> set (concat chunks) \<union> set xs"
  proof (cases "i < length xs")
    case True
    with eq have "loop xs sz (i + sz) (chunks @ [slice xs i (i + sz)]) = Some cs" by simp
    from IH [OF this]
    have "set (concat cs) \<subseteq> set (concat (chunks @ [slice xs i (i + sz)])) \<union> set xs" .
    moreover have "set (slice xs i (i + sz)) \<subseteq> set xs"
      by (metis slice_def set_drop_subset set_take_subset subset_trans)
    ultimately show ?thesis by auto
  next
    case False
    with eq show ?thesis by auto
  qed
qed

lemma chunkArray_subset:
  "chunkArray xs sz = Some cs \<Longrightarrow> b \<in> set cs \<Longrightarrow> set b \<subseteq> set xs"
  using chunkArray_loop_subset [of xs sz 0 "[]" cs] by (auto simp: chunkArray_def)

lemma uploadBatches_keeps:
  "storage_wf (storage svc) \<Longrightarrow> uploadKeeps (set batches) svc (snd (uploadBatches env batches svc))"
proof (induction batches arbitrary: svc)
  case Nil
  then show ?case by (simp add: uploadKeeps_refl)
next
  case (Cons batch rest)
  obtain r svc1 where one: "uploadBatch env batch svc = (r, svc1)"
    by (cases "uploadBatch env batch svc")
  have k1: "uploadKeeps {batch} svc svc1"
    using uploadBatch_loop_keeps [OF Cons.prems, of batch env 0] one
    by (simp add: uploadBatch_def)
  then have k1': "uploadKeeps (set (batch # rest)) svc svc1"
    by (rule uploadKeeps_mono) simp
  show ?case
  proof (cases r)
    case (Some error)
    with one k1' show ?thesis by simp
  next
    case None
    from k1 have wf1: "storage_wf (storage svc1)" by (simp add: uploadKeeps_def)
    have "uploadKeeps (set (batch # rest)) svc1 (snd (uploadBatches env rest svc1))"
      using Cons.IH [OF wf1] by (rule uploadKeeps_mono) auto
    with k1' have "uploadKeeps (set (batch # rest)) svc (snd (uploadBatches env rest svc1))"
      by (rule uploadKeeps_trans)
    with one None show ?thesis by simp
  qed
qed

lemma uploadLocalChanges_keeps:
  assumes "storage_wf (storage svc)" and "uploadLocalChanges env svc = Some (r, svc')"
  shows "uploadKeeps {b. set b \<subseteq> set (getLocalChanges (storage svc))} svc svc'"
proof (cases "getLocalChanges (storage svc) = []")
  case True
  with assms show ?thesis
    by (simp add: uploadLocalChanges_def uploadKeeps_refl)
next
  case False
  with assms(2) obtain batches where
      ch: "chunkArray (getLocalChanges (storage svc)) (batchSize (sync_config svc)) = Some batches"
      and run: "uploadBatches env batches svc = (r, svc')"
    by (auto simp: uploadLocalChanges_def split: option.splits)
  have "uploadKeeps (set batches) svc svc'"
    using uploadBatches_keeps [OF assms(1), of batches env] run by simp
  then show ?thesis
    by (rule uploadKeeps_mono) (use chunkArray_subset [OF ch] in auto)
qed


lemma applyOne_frame:
  assumes "applyOne svc change = Some svc1"
  shows "storage svc1 = storage svc" and "uploaded svc1 = uploaded svc"
    and "sync_config svc1 = sync_config svc"
  using assms
  by (auto simp: applyOne_def emitEvent_def addSyncError_def Let_def
           split: option.splits sum.splits)

lemma applyServerChanges_frame:
  "applyServerChanges cs svc = Some svc1 \<Longrightarrow>
   storage svc1 = storage svc \<and> uploaded svc1 = uploaded svc \<and>
   sync_config svc1 = sync_config svc"
proof (induction cs arbitrary: svc)
  case Nil
  then show ?case by simp
next
  case (Cons change rest)
  from Cons.prems obtain s where one: "applyOne svc change = Some s"
      and more: "applyServerChanges rest s = Some svc1"
    by (auto split: option.splits)
  from Cons.IH [OF more] applyOne_frame [OF one] show ?case by simp
qed

lemma downloadLoop_frame:
  assumes "downloadLoop env k svc = Some res"
  shows "storage (snd res) = storage svc \<and> uploaded (snd res) = uploaded svc \<and>
         sync_config (snd res) = sync_config svc"
proof (rule downloadLoop.raw_induct
    [where P = "\<lambda>env k svc res. storage (snd res) = storage svc \<and>
                  uploaded (snd res) = uploaded svc \<and> sync_config (snd res) = sync_config svc",
     OF _ assms])
  fix loop :: "sync_env \<Rightarrow> nat \<Rightarrow> OfflineFirstSyncService
                 \<Rightarrow> (js_error option \<times> OfflineFirstSyncService) option"
  fix env k svc res
  assume IH: "\<And>env k svc res. loop env k svc = Some res \<Longrightarrow>
                storage (snd res) = storage svc \<and> uploaded (snd res) = uploaded svc \<and>
                sync_config (snd res) = sync_config svc"
     and eq: "(case changes_answer env k of
                 Inl error \<Rightarrow> Some (Some error, svc)
               | Inr response \<Rightarrow>
                   (case env_data response of
                      None \<Rightarrow> Some (None, svc)
                    | Some d \<Rightarrow>
                        if env_success response = Some True then
                          (case (if changes d \<noteq> [] then applyServerChanges (changes d) svc
                                 else Some svc) of
                             None \<Rightarrow> None
                           | Some svc1 \<Rightarrow>
                               if hasMore d then loop env (k + 1) svc1 else Some (None, svc1))
                        else Some (None, svc))) = Some res"
  show "storage (snd res) = storage svc \<and> uploaded (snd res) = uploaded svc \<and>
        sync_config (snd res) = sync_config svc"
  proof (cases "changes_answer env k")
    case (Inl error)
    with eq show ?thesis by auto
  next
    case (Inr response)
    show ?thesis
    proof (cases "env_data response")
      case None
      with eq Inr show ?thesis by auto
    next
      case (Some d)
      show ?thesis
      proof (cases "env_success response = Some True")
        case False
        with eq Inr Some show ?thesis by auto
      next
        case True
        with eq Inr Some obtain svc1
          where page: "(if changes d \<noteq> [] then applyServerChanges (changes d) svc
                        else Some svc) = Some svc1"
            and rest: "(if hasMore d then loop env (k + 1) svc1 else Some (None, svc1)) = Some res"
          by (auto split: option.splits)
        from page have fr: "storage svc1 = storage svc \<and> uploaded svc1 = uploaded svc \<and>
            sync_config svc1 = sync_config svc"
          using applyServerChanges_frame [of "changes d" svc svc1] by (auto split: if_splits)
        show ?thesis
        proof (cases "hasMore d")
          case True
          with rest have "loop env (k + 1) svc1 = Some res" by simp
          from IH [OF this] fr show ?thesis by simp
        next
          case False
          with rest fr show ?thesis by auto
        qed
      qed
    qed
  qed
qed

lemma resolveConflicts_id [simp]: "resolveConflicts svc = svc"
  by (simp add: resolveConflicts_def getUnresolvedConflicts_def)

lemma syncCompleted_storage:
  "storage (syncCompleted env svc) =
     AList.update ''last_sync_time'' (StoredNumber (clock env)) (storage svc)"
  by (simp add: syncCompleted_def Let_def setSyncing_def emitEvent_def
        updatePendingChangesCount_def setItem_def)

lemma syncCompleted_props:
  assumes "storage_wf (storage svc)"
  shows "storage_wf (storage (syncCompleted env svc))"
    and "getLocalChanges (storage (syncCompleted env svc)) = getLocalChanges (storage svc)"
    and "pendingChanges (syncState (syncCompleted env svc)) = length (getLocalChanges (storage svc))"
    and "uploaded (syncCompleted env svc) = uploaded svc"
    and "sync_config (syncCompleted env svc) = sync_config svc"
    and "database (syncCompleted env svc) = database svc"
proof -
  show wf: "storage_wf (storage (syncCompleted env svc))"
    unfolding syncCompleted_storage using assms by (rule storage_wf_update) simp
  have ent: "storedEntries (storage (syncCompleted env svc)) = storedEntries (storage svc)"
    unfolding syncCompleted_storage by (rule storedEntries_update_other) (rule not_journal_keys)
  show j: "getLocalChanges (storage (syncCompleted env svc)) = getLocalChanges (storage svc)"
    using wf assms ent by (simp add: getLocalChanges_storedEntries storage_wf_def)
  have "pendingChanges (syncState (syncCompleted env svc)) =
        length (getLocalChanges (storage (syncCompleted env svc)))"
    by (simp add: syncCompleted_def Let_def setSyncing_def emitEvent_def
          updatePendingChangesCount_def)
  with j show "pendingChanges (syncState (syncCompleted env svc)) =
               length (getLocalChanges (storage svc))"
    by simp
qed (simp_all add: syncCompleted_def Let_def setSyncing_def emitEvent_def
       updatePendingChangesCount_def)

lemma syncFailed_frame [simp]:
  "storage (syncFailed error svc) = storage svc"
  "uploaded (syncFailed error svc) = uploaded svc"
  "sync_config (syncFailed error svc) = sync_config svc"
  "database (syncFailed error svc) = database svc"
  by (simp_all add: syncFailed_def setSyncing_def emitEvent_def addSyncError_def Let_def)

lemma started_frame [simp]:
  "storage (emitEvent SYNC_STARTED (setSyncing True svc)) = storage svc"
  "uploaded (emitEvent SYNC_STARTED (setSyncing True svc)) = uploaded svc"
  "sync_config (emitEvent SYNC_STARTED (setSyncing True svc)) = sync_config svc"
  "database (emitEvent SYNC_STARTED (setSyncing True svc)) = database svc"
  by (simp_all add: setSyncing_def emitEvent_def)

lemma recordLocalChange_frame [simp]:
  "uploaded (snd (recordLocalChange call svc)) = uploaded svc"
  "sync_config (snd (recordLocalChange call svc)) = sync_config svc"
  "database (snd (recordLocalChange call svc)) = database svc"
  by (simp_all add: recordLocalChange_def Let_def saveLocalChange_def updatePendingChangesCount_def)

lemma recordAll_frame [simp]:
  "uploaded (recordAll calls svc) = uploaded svc"
  "sync_config (recordAll calls svc) = sync_config svc"
  "database (recordAll calls svc) = database svc"
  by (induction calls rule: rev_induct) (simp_all add: recordAll_snoc, simp_all add: recordAll_def)

text \<open>
  Claim C1, as the code has it. Changes are recorded by any sequence of
  \<open>recordLocalChange\<close> calls on a service with a well-formed store and at least one
  upload attempt per batch (the constructor sets 3). Every response of the remote
  authority to an upload lists all submitted client ids as processed and reports no
  conflict. If the pass that \<open>startSync\<close> then runs completes successfully, the journal
  is empty afterwards and \<open>pendingChanges\<close> is 0. The uploads of the pass that were
  answered are batches whose concatenation is the journal as it was before the pass:
  every journal entry was acknowledged in exactly one batch, once. The journal entries
  are, beside those the journal held before, the change of the last call for every
  client id chosen; the change of a call whose client id a later call repeats was
  overwritten and is not uploaded. Every other upload of the pass is an attempt that
  failed without a response, for a batch that was posted again and then answered; a
  batch is posted at most \<open>retryAttempts\<close> times.
\<close>

theorem sync_uploads_every_change_once:
  assumes "storage_wf (storage svc)" and "0 < retryAttempts (sync_config svc)"
      and "acknowledges env"
      and "startSync env force (recordAll calls svc) = Some (Completed, svc')"
  shows "getLocalChanges (storage svc') = [] \<and>
         pendingChanges (syncState svc') = 0 \<and>
         (\<exists>posted. uploaded svc' = uploaded svc @ posted \<and>
            concat (answered env (uploaded svc) posted) =
              getLocalChanges (storage (recordAll calls svc)) \<and>
            distinct (map clientId (concat (answered env (uploaded svc) posted))) \<and>
            set (concat (answered env (uploaded svc) posted)) =
              {c \<in> set (getLocalChanges (storage svc)).
                 clientId c \<notin> chosenClientId ` set calls} \<union>
              recordedChange ` set (lastRecorded calls) \<and>
            set posted \<subseteq> set (answered env (uploaded svc) posted) \<and>
            length posted \<le>
              retryAttempts (sync_config svc) * length (answered env (uploaded svc) posted))"
proof -
  let ?rec = "recordAll calls svc"
  let ?s0 = "emitEvent SYNC_STARTED (setSyncing True ?rec)"
  have wf: "storage_wf (storage ?rec)"
    using assms(1) by (rule recordAll_wf)
  have wf0: "storage_wf (storage ?s0)" using wf by simp
  have pos0: "0 < retryAttempts (sync_config ?s0)" using assms(2) by simp
  from assms(4) obtain svc1 svc2 where up: "uploadLocalChanges env ?s0 = Some (None, svc1)"
      and down: "downloadServerChanges env svc1 = Some (None, svc2)"
      and fin: "svc' = syncCompleted env svc2"
    by (auto simp: startSync_def split: if_splits option.splits prod.splits)
  from uploadLocalChanges_acked [OF assms(3) wf0 pos0 up]
  obtain posted where log: "uploaded svc1 = uploaded svc @ posted"
      and cat: "concat (answered env (uploaded svc) posted) = getLocalChanges (storage ?rec)"
      and sub: "set posted \<subseteq> set (answered env (uploaded svc) posted)"
      and len: "length posted \<le>
          retryAttempts (sync_config svc) * length (answered env (uploaded svc) posted)"
      and wf1: "storage_wf (storage svc1)"
      and empty: "getLocalChanges (storage svc1) = []"
    by auto
  from downloadLoop_frame [of env 0 svc1 "(None, svc2)"] down
  have fr: "storage svc2 = storage svc1" "uploaded svc2 = uploaded svc1"
    by (simp_all add: downloadServerChanges_def)
  from wf1 fr have wf2: "storage_wf (storage svc2)" by simp
  have j: "getLocalChanges (storage svc') = []" "pendingChanges (syncState svc') = 0"
       "uploaded svc' = uploaded svc @ posted"
    using syncCompleted_props [OF wf2, of env] fr empty log by (simp_all add: fin)
  have d: "distinct (map clientId (concat (answered env (uploaded svc) posted)))"
    using distinct_clientIds_journal [OF wf] by (simp only: cat)
  have all: "set (concat (answered env (uploaded svc) posted)) =
              {c \<in> set (getLocalChanges (storage svc)).
                 clientId c \<notin> chosenClientId ` set calls} \<union>
              recordedChange ` set (lastRecorded calls)"
    using recordAll_journal [OF assms(1), of calls] by (simp only: cat)
  show ?thesis
    using j cat d all sub len by blast
qed

subsection \<open>Three passes\<close>

lemmas pass_eval =
  startSync_def recordAll_def recordLocalChange_def Let_def saveLocalChange_def
  call_create_def call_update_def call_other_def sync_initial_def no_upload_attempts_def
  chosenClientId_def setItem_def changeKey_def updatePendingChangesCount_def
  getLocalChanges_def startsWith_def readChange_def getItem_def uploadLocalChanges_def
  chunkArray_def chunkArray_loop.simps slice_def uploadBatch_def uploadBatch_loop.simps
  removeLocalChange_def removeItem_def removeProcessedChanges_def downloadServerChanges_def
  downloadLoop.simps emitEvent_def setSyncing_def syncCompleted_def resolveConflicts_def
  getUnresolvedConflicts_def acking_env_def flaky_env_def new_Error_def recordedChange_def

lemma acking_env_acknowledges: "acknowledges acking_env"
  by (simp add: acknowledges_def acking_env_def)

lemma flaky_env_acknowledges: "acknowledges flaky_env"
  by (auto simp: acknowledges_def flaky_env_def acking_env_def split: if_splits)

lemma acked_pass_completes:
  "map_option fst
     (startSync acking_env False (recordAll [call_create, call_update, call_other] sync_initial)) =
   Some Completed"
  by (simp add: pass_eval)

lemma acked_pass:
  "startSync acking_env False (recordAll [call_create, call_update, call_other] sync_initial) =
   Some (Completed, after_acked_pass)"
  using acked_pass_completes
  by (auto simp: after_acked_pass_def pass_result_def split: option.splits)

lemma after_acked_pass_uploaded:
  "uploaded after_acked_pass = [[recordedChange call_update, recordedChange call_other]]"
  by (simp add: after_acked_pass_def pass_result_def pass_eval)

lemma flaky_pass_completes:
  "map_option fst (startSync flaky_env False (recordAll [call_create] sync_initial)) =
   Some Completed"
  by (simp add: pass_eval)

lemma flaky_pass:
  "startSync flaky_env False (recordAll [call_create] sync_initial) =
   Some (Completed, after_flaky_pass)"
  using flaky_pass_completes
  by (auto simp: after_flaky_pass_def pass_result_def split: option.splits)

lemma after_flaky_pass_uploaded:
  "uploaded after_flaky_pass = [[recordedChange call_create], [recordedChange call_create]]"
  by (simp add: after_flaky_pass_def pass_result_def pass_eval)

lemma pass_without_attempts_completes:
  "map_option fst (startSync acking_env False (recordAll [call_create] no_upload_attempts)) =
   Some Completed"
  by (simp add: pass_eval)

lemma pass_without_attempts:
  "startSync acking_env False (recordAll [call_create] no_upload_attempts) =
   Some (Completed, after_pass_without_attempts)"
  using pass_without_attempts_completes
  by (auto simp: after_pass_without_attempts_def pass_result_def split: option.splits)

lemma after_pass_without_attempts_state:
  "uploaded after_pass_without_attempts = []"
  "getLocalChanges (storage after_pass_without_attempts) = [recordedChange call_create]"
  by (simp_all add: after_pass_without_attempts_def pass_result_def pass_eval)

theorem sync_uploads_every_change_once_witness:
  "startSync acking_env False (recordAll [call_create, call_update, call_other] sync_initial) =
     Some (Completed, after_acked_pass) \<and>
   getLocalChanges (storage after_acked_pass) = [] \<and>
   pendingChanges (syncState after_acked_pass) = 0 \<and>
   uploaded after_acked_pass = [[recordedChange call_update, recordedChange call_other]]"
proof -
  have wf: "storage_wf (storage sync_initial)"
    by (simp add: sync_initial_def)
  have cfg: "0 < retryAttempts (sync_config sync_initial)"
    by (simp add: sync_initial_def)
  from sync_uploads_every_change_once [OF wf cfg acking_env_acknowledges acked_pass]
    acked_pass after_acked_pass_uploaded
  show ?thesis by simp
qed

text \<open>
  The claim as it is written fails in three ways. A call that repeats a client id
  overwrites the change recorded before: of the three example calls the first records
  the creation of message \<open>m1\<close> under \<open>c1\<close> and the second an update under \<open>c1\<close>; the
  pass completes and the creation was never uploaded. An upload attempt that fails
  without a response is retried: against the third remote authority the one recorded
  change is posted twice in a pass that completes. And with \<open>retryAttempts\<close> at 0 the
  pass completes without any upload, the recorded change still in the journal.
\<close>

theorem recorded_change_not_uploaded_once_counterexample:
  "acknowledges acking_env \<and>
   startSync acking_env False (recordAll [call_create, call_update, call_other] sync_initial) =
     Some (Completed, after_acked_pass) \<and>
   recordedChange call_create \<notin> set (concat (uploaded after_acked_pass)) \<and>
   acknowledges flaky_env \<and>
   startSync flaky_env False (recordAll [call_create] sync_initial) =
     Some (Completed, after_flaky_pass) \<and>
   uploaded after_flaky_pass = [[recordedChange call_create], [recordedChange call_create]] \<and>
   startSync acking_env False (recordAll [call_create] no_upload_attempts) =
     Some (Completed, after_pass_without_attempts) \<and>
   uploaded after_pass_without_attempts = [] \<and>
   getLocalChanges (storage after_pass_without_attempts) = [recordedChange call_create]"
  using acking_env_acknowledges acked_pass flaky_env_acknowledges flaky_pass
    pass_without_attempts
  by (simp add: after_acked_pass_uploaded after_flaky_pass_uploaded
        after_pass_without_attempts_state recordedChange_def call_create_def call_update_def
        call_other_def chosenClientId_def)


lemma conflictReported_append:
  "i < length log \<Longrightarrow> conflictReported env (log @ later) i cid = conflictReported env log i cid"
  by (simp add: conflictReported_def nth_append)

lemma conflictReported_last:
  "conflictReported env (log @ [batch]) (length log) cid =
     (case upload_answer env log batch of
        Inl error \<Rightarrow> False
      | Inr response \<Rightarrow>
          env_success response = Some True \<and>
          (case env_data response of
             None \<Rightarrow> False
           | Some d \<Rightarrow> cid \<in> conflict_clientId ` set (conflicts d)))"
  by (simp add: conflictReported_def)

lemma conflictsGone_start: "conflictsGone env (length (uploaded svc)) cid svc"
  by (auto simp: conflictsGone_def)

lemma conflictsGone_post:
  assumes "conflictsGone env n0 cid svc"
      and "uploaded svc' = uploaded svc @ [batch]"
      and "set (storedEntries (storage svc')) \<subseteq> set (storedEntries (storage svc))"
      and "conflictReported env (uploaded svc @ [batch]) (length (uploaded svc)) cid \<Longrightarrow>
             cid \<notin> clientId ` set (storedEntries (storage svc'))"
  shows "conflictsGone env n0 cid svc'"
  unfolding conflictsGone_def
proof (intro allI impI, elim conjE)
  fix i
  assume lo: "n0 \<le> i" and hi: "i < length (uploaded svc')"
     and rep: "conflictReported env (uploaded svc') i cid"
  show "cid \<notin> clientId ` set (storedEntries (storage svc'))"
  proof (cases "i < length (uploaded svc)")
    case True
    with rep assms(2) have "conflictReported env (uploaded svc) i cid"
      by (simp add: conflictReported_append)
    with assms(1) lo True have "cid \<notin> clientId ` set (storedEntries (storage svc))"
      unfolding conflictsGone_def by blast
    with assms(3) show ?thesis by blast
  next
    case False
    with hi assms(2) have "i = length (uploaded svc)" by simp
    with rep assms(2,4) show ?thesis by simp
  qed
qed

lemma conflictsGone_same_log:
  assumes "conflictsGone env n0 cid svc"
      and "uploaded svc' = uploaded svc"
      and "set (storedEntries (storage svc')) \<subseteq> set (storedEntries (storage svc))"
  shows "conflictsGone env n0 cid svc'"
  using assms unfolding conflictsGone_def by (metis image_mono subsetD)

lemma uploadBatch_loop_conflictsGone:
  "storage_wf (storage svc) \<Longrightarrow> conflictResolution (sync_config svc) = SERVER_WINS \<Longrightarrow>
   conflictsGone env n0 cid svc \<Longrightarrow>
   conflictsGone env n0 cid (snd (uploadBatch_loop env batch attempt svc))"
proof (induction env batch attempt svc rule: uploadBatch_loop.induct)
  case (1 env batch attempt svc)
  note wf = "1.prems"(1) and sw = "1.prems"(2) and gone = "1.prems"(3)
  let ?p = "svc\<lparr>uploaded := uploaded svc @ [batch]\<rparr>"
  have wfp: "storage_wf (storage ?p)" using wf by simp
  have quiet: "conflictsGone env n0 cid s"
    if "uploaded s = uploaded svc @ [batch]" and "storage s = storage svc"
      and "\<not> conflictReported env (uploaded svc @ [batch]) (length (uploaded svc)) cid" for s
    using gone that(1) by (rule conflictsGone_post) (simp_all add: that)
  show ?case
  proof (cases "attempt < retryAttempts (sync_config svc)")
    case False
    then show ?thesis
      using gone by (subst uploadBatch_loop_unfold) simp
  next
    case True
    show ?thesis
    proof (cases "upload_answer env (uploaded svc) batch")
      case ans: (Inr response)
      show ?thesis
      proof (cases "env_data response")
        case nodata: None
        have "conflictsGone env n0 cid ?p"
          by (rule quiet) (simp_all add: conflictReported_last ans nodata)
        then show ?thesis
          using True ans nodata by (subst uploadBatch_loop_unfold) simp
      next
        case data: (Some d)
        show ?thesis
        proof (cases "env_success response = Some True")
          case False
          have "conflictsGone env n0 cid ?p"
            by (rule quiet) (simp_all add: conflictReported_last ans data False)
          then show ?thesis
            using True ans data False by (subst uploadBatch_loop_unfold) simp
        next
          case ok: True
          note pa = processAnswer_props [OF wfp, of d]
          have "conflictsGone env n0 cid (processAnswer d ?p)"
            using gone
          proof (rule conflictsGone_post)
            show "uploaded (processAnswer d ?p) = uploaded svc @ [batch]"
              using pa(4) by simp
            show "set (storedEntries (storage (processAnswer d ?p))) \<subseteq> set (storedEntries (storage svc))"
              using pa(2) by auto
            show "cid \<notin> clientId ` set (storedEntries (storage (processAnswer d ?p)))"
              if "conflictReported env (uploaded svc @ [batch]) (length (uploaded svc)) cid"
              using that pa(2) sw
              by (auto simp: conflictReported_last ans data) (metis imageI)
          qed
          then show ?thesis
            using True ans data ok by (subst uploadBatch_loop_unfold) simp
        qed
      qed
    next
      case ans: (Inl error)
      show ?thesis
      proof (cases "attempt + 1 \<ge> retryAttempts (sync_config svc)")
        case last: True
        have "conflictsGone env n0 cid ?p"
          by (rule quiet) (simp_all add: conflictReported_last ans)
        then show ?thesis
          using True ans last by (subst uploadBatch_loop_unfold) simp
      next
        case False
        let ?s = "svc\<lparr>uploaded := uploaded svc @ [batch],
                      upload_sleeps := upload_sleeps svc @
                         [sync_retryDelay (sync_config svc) * (attempt + 1)]\<rparr>"
        have g: "conflictsGone env n0 cid ?s"
          by (rule quiet) (simp_all add: conflictReported_last ans)
        have "conflictsGone env n0 cid (snd (uploadBatch_loop env batch (attempt + 1) ?s))"
          using "1.IH" [OF True refl ans] False wf sw g by simp
        then show ?thesis
          using True ans False by (subst uploadBatch_loop_unfold) simp
      qed
    qed
  qed
qed

lemma uploadBatches_conflictsGone:
  "storage_wf (storage svc) \<Longrightarrow> conflictResolution (sync_config svc) = SERVER_WINS \<Longrightarrow>
   conflictsGone env n0 cid svc \<Longrightarrow>
   conflictsGone env n0 cid (snd (uploadBatches env batches svc))"
proof (induction batches arbitrary: svc)
  case Nil
  then show ?case by simp
next
  case (Cons batch rest)
  obtain r svc1 where one: "uploadBatch env batch svc = (r, svc1)"
    by (cases "uploadBatch env batch svc")
  have k1: "uploadKeeps {batch} svc svc1"
    using uploadBatch_loop_keeps [OF Cons.prems(1), of batch env 0] one
    by (simp add: uploadBatch_def)
  have g1: "conflictsGone env n0 cid svc1"
    using uploadBatch_loop_conflictsGone [OF Cons.prems, of batch 0] one
    by (simp add: uploadBatch_def)
  show ?case
  proof (cases r)
    case (Some error)
    with one g1 show ?thesis by simp
  next
    case None
    from k1 Cons.prems(2) have "storage_wf (storage svc1)"
        "conflictResolution (sync_config svc1) = SERVER_WINS"
      by (simp_all add: uploadKeeps_def)
    from Cons.IH [OF this g1] one None show ?thesis by simp
  qed
qed

lemma uploadLocalChanges_conflictsGone:
  assumes "storage_wf (storage svc)" and "conflictResolution (sync_config svc) = SERVER_WINS"
      and "conflictsGone env n0 cid svc" and "uploadLocalChanges env svc = Some (r, svc')"
  shows "conflictsGone env n0 cid svc'"
proof (cases "getLocalChanges (storage svc) = []")
  case True
  with assms show ?thesis by (simp add: uploadLocalChanges_def)
next
  case False
  with assms(4) obtain batches where run: "uploadBatches env batches svc = (r, svc')"
    by (auto simp: uploadLocalChanges_def split: option.splits)
  from uploadBatches_conflictsGone [OF assms(1-3), of batches] run show ?thesis by simp
qed


subsection \<open>A whole pass\<close>

text \<open>A pass that is not skipped ends in a state that differs from the state after
  the upload step only outside the journal and the log of uploads.\<close>

lemma syncCompleted_frame:
  "uploaded (syncCompleted env svc) = uploaded svc"
  "sync_config (syncCompleted env svc) = sync_config svc"
  "database (syncCompleted env svc) = database svc"
  by (simp_all add: syncCompleted_def Let_def setSyncing_def emitEvent_def
        updatePendingChangesCount_def)

lemma startSync_cases:
  assumes "startSync env force svc = Some (out, svc')"
  shows "(out = Skipped \<and> svc' = svc) \<or>
         (\<exists>r svc1. uploadLocalChanges env (emitEvent SYNC_STARTED (setSyncing True svc)) = Some (r, svc1) \<and>
            uploaded svc' = uploaded svc1 \<and> sync_config svc' = sync_config svc1 \<and>
            (storage svc' = storage svc1 \<or>
             storage svc' = AList.update ''last_sync_time'' (StoredNumber (clock env)) (storage svc1)))"
proof (cases "(isSyncing (syncState svc) \<and> \<not> force) \<or> \<not> isOnline (syncState svc)")
  case True
  with assms show ?thesis by (auto simp: startSync_def split: if_splits)
next
  case False
  let ?s0 = "emitEvent SYNC_STARTED (setSyncing True svc)"
  from assms False obtain r svc1 where up: "uploadLocalChanges env ?s0 = Some (r, svc1)"
    by (auto simp: startSync_def split: option.splits)
  show ?thesis
  proof (cases r)
    case (Some error)
    with assms False up have "svc' = syncFailed error svc1"
      by (auto simp: startSync_def)
    with up show ?thesis by auto
  next
    case None
    with assms False up obtain r2 svc2 where down: "downloadServerChanges env svc1 = Some (r2, svc2)"
      by (auto simp: startSync_def split: option.splits)
    from downloadLoop_frame [of env 0 svc1 "(r2, svc2)"] down
    have fr: "storage svc2 = storage svc1" "uploaded svc2 = uploaded svc1"
        "sync_config svc2 = sync_config svc1"
      by (simp_all add: downloadServerChanges_def)
    show ?thesis
    proof (cases r2)
      case (Some error)
      with assms False up None down have "svc' = syncFailed error svc2"
        by (auto simp: startSync_def)
      with up fr show ?thesis by auto
    next
      case none2: None
      with assms False up None down have "svc' = syncCompleted env svc2"
        by (auto simp: startSync_def)
      with up fr show ?thesis
        by (auto simp: syncCompleted_storage syncCompleted_frame)
    qed
  qed
qed

lemma storedEntries_last_sync_time:
  "storedEntries (AList.update ''last_sync_time'' v st) = storedEntries st"
  by (rule storedEntries_update_other) (rule not_journal_keys)

lemma storage_wf_last_sync_time:
  "storage_wf st \<Longrightarrow> storage_wf (AList.update ''last_sync_time'' (StoredNumber n) st)"
  by (rule storage_wf_update) simp_all

lemma startSync_keeps:
  assumes "storage_wf (storage svc)" and "startSync env force svc = Some (out, svc')"
  shows "storage_wf (storage svc') \<and>
         set (storedEntries (storage svc')) \<subseteq> set (storedEntries (storage svc)) \<and>
         sync_config svc' = sync_config svc \<and>
         (\<exists>posted. uploaded svc' = uploaded svc @ posted \<and>
           (\<forall>b \<in> set posted. set b \<subseteq> set (getLocalChanges (storage svc))))"
proof -
  let ?s0 = "emitEvent SYNC_STARTED (setSyncing True svc)"
  from startSync_cases [OF assms(2)]
  consider "svc' = svc"
    | r svc1 where "uploadLocalChanges env ?s0 = Some (r, svc1)"
        "uploaded svc' = uploaded svc1" "sync_config svc' = sync_config svc1"
        "storage svc' = storage svc1 \<or>
         storage svc' = AList.update ''last_sync_time'' (StoredNumber (clock env)) (storage svc1)"
    by blast
  then show ?thesis
  proof cases
    case 1
    with assms(1) show ?thesis by simp
  next
    case 2
    have wf0: "storage_wf (storage ?s0)" using assms(1) by simp
    from uploadLocalChanges_keeps [OF wf0 2(1)]
    have k: "uploadKeeps {b. set b \<subseteq> set (getLocalChanges (storage svc))} svc svc1"
      by (simp add: uploadKeeps_def)
    from 2(4) k have "storage_wf (storage svc')"
      by (auto simp: uploadKeeps_def storage_wf_last_sync_time)
    moreover from 2(4) have "storedEntries (storage svc') = storedEntries (storage svc1)"
      by (auto simp: storedEntries_last_sync_time)
    ultimately show ?thesis
      using k 2(2,3) unfolding uploadKeeps_def by auto
  qed
qed

lemma startSync_conflictsGone:
  assumes "storage_wf (storage svc)" and "conflictResolution (sync_config svc) = SERVER_WINS"
      and "startSync env force svc = Some (out, svc')"
  shows "conflictsGone env (length (uploaded svc)) cid svc'"
proof -
  let ?s0 = "emitEvent SYNC_STARTED (setSyncing True svc)"
  from startSync_cases [OF assms(3)]
  consider "svc' = svc"
    | r svc1 where "uploadLocalChanges env ?s0 = Some (r, svc1)"
        "uploaded svc' = uploaded svc1"
        "storage svc' = storage svc1 \<or>
         storage svc' = AList.update ''last_sync_time'' (StoredNumber (clock env)) (storage svc1)"
    by blast
  then show ?thesis
  proof cases
    case 1
    then show ?thesis by (simp add: conflictsGone_start)
  next
    case 2
    have wf0: "storage_wf (storage ?s0)" and sw0: "conflictResolution (sync_config ?s0) = SERVER_WINS"
      using assms(1,2) by simp_all
    have g0: "conflictsGone env (length (uploaded svc)) cid ?s0"
      using conflictsGone_start [of env ?s0 cid] by simp
    have g1: "conflictsGone env (length (uploaded svc)) cid svc1"
      using uploadLocalChanges_conflictsGone [OF wf0 sw0 g0 2(1)] .
    from 2(3) have "storedEntries (storage svc') = storedEntries (storage svc1)"
      by (auto simp: storedEntries_last_sync_time)
    with g1 2(2) show ?thesis
      by (intro conflictsGone_same_log [of env _ cid svc1 svc']) simp_all
  qed
qed

lemma journalIds_stored:
  "storage_wf (storage svc) \<Longrightarrow> journalIds svc = clientId ` set (storedEntries (storage svc))"
  by (simp add: journalIds_def journal_set)

text \<open>
  Under the server-wins strategy, a pass in which the answer to some upload reports a
  conflict for a client id leaves no journal entry with that client id, whether the
  pass completes or fails later; a later pass neither finds the entry in the journal
  nor uploads it. Conflict resolution does not touch the database.
\<close>

theorem server_wins_conflict_removed:
  assumes "storage_wf (storage svc)"
      and "conflictResolution (sync_config svc) = SERVER_WINS"
      and "startSync env force svc = Some (out, svc')"
      and "length (uploaded svc) \<le> i" and "i < length (uploaded svc')"
      and "conflictReported env (uploaded svc') i cid"
  shows "cid \<notin> journalIds svc' \<and>
         (\<forall>env2 force2 out2 svc2. startSync env2 force2 svc' = Some (out2, svc2) \<longrightarrow>
            cid \<notin> journalIds svc2 \<and>
            (\<forall>b \<in> set (drop (length (uploaded svc')) (uploaded svc2)). cid \<notin> clientId ` set b)) \<and>
         database (resolveConflict conflict svc) = database svc \<and>
         database (handleUploadConflicts cs svc) = database svc"
proof -
  from startSync_keeps [OF assms(1,3)]
  have k: "storage_wf (storage svc')" by simp
  from startSync_conflictsGone [OF assms(1-3), of cid] assms(4-6)
  have "cid \<notin> clientId ` set (storedEntries (storage svc'))"
    unfolding conflictsGone_def by blast
  then have gone: "cid \<notin> journalIds svc'"
    by (simp add: journalIds_stored [OF k])
  have later: "cid \<notin> journalIds svc2 \<and>
            (\<forall>b \<in> set (drop (length (uploaded svc')) (uploaded svc2)). cid \<notin> clientId ` set b)"
    if "startSync env2 force2 svc' = Some (out2, svc2)" for env2 force2 out2 svc2
  proof -
    from startSync_keeps [OF k that]
    have wf2: "storage_wf (storage svc2)"
      and sub: "set (storedEntries (storage svc2)) \<subseteq> set (storedEntries (storage svc'))"
      and posted: "\<exists>posted. uploaded svc2 = uploaded svc' @ posted \<and>
           (\<forall>b \<in> set posted. set b \<subseteq> set (getLocalChanges (storage svc')))"
      by simp_all
    from sub gone have "cid \<notin> journalIds svc2"
      by (auto simp: journalIds_stored [OF k] journalIds_stored [OF wf2])
    moreover from posted gone
    have "\<forall>b \<in> set (drop (length (uploaded svc')) (uploaded svc2)). cid \<notin> clientId ` set b"
      unfolding journalIds_def by fastforce
    ultimately show ?thesis by simp
  qed
  show ?thesis
    using gone later resolveConflict_props(3) [OF assms(1)] handleUploadConflicts_props(3) [OF assms(1)]
    by blast
qed


lemmas sync_eval =
  startSync_def recordLocalChange_def Let_def saveLocalChange_def call_update_def
  sync_initial_def chosenClientId_def setItem_def changeKey_def updatePendingChangesCount_def
  getLocalChanges_def startsWith_def readChange_def getItem_def uploadLocalChanges_def
  chunkArray_def chunkArray_loop.simps slice_def uploadBatch_def uploadBatch_loop.simps
  handleUploadConflicts_def resolveConflict_def removeLocalChange_def removeItem_def
  removeProcessedChanges_def downloadServerChanges_def downloadLoop.simps emitEvent_def
  setSyncing_def syncCompleted_def resolveConflicts_def getUnresolvedConflicts_def

lemma conflicted_service_storage:
  "storage conflicted_service =
     [(''local_change_c1'',
       StoredChange \<lparr>lc_type = MESSAGES, lc_action = UPDATE,
                     lc_data = \<lparr>entity_id = ''m1'', entity_body = ''hello''\<rparr>,
                     clientId = ''c1'', lc_timestamp = 2\<rparr>)]"
  by (simp add: conflicted_service_def sync_eval)

lemma conflict_pass_completes:
  "map_option fst (startSync conflict_env False conflicted_service) = Some Completed"
  by (simp add: conflicted_service_def conflict_env_def sync_eval)

lemma conflict_pass:
  "startSync conflict_env False conflicted_service = Some (Completed, after_conflict_pass)"
  using conflict_pass_completes
  by (auto simp: after_conflict_pass_def split: option.splits)

lemma after_conflict_pass_uploaded:
  "uploaded after_conflict_pass =
     [[\<lparr>lc_type = MESSAGES, lc_action = UPDATE,
        lc_data = \<lparr>entity_id = ''m1'', entity_body = ''hello''\<rparr>,
        clientId = ''c1'', lc_timestamp = 2\<rparr>]]"
  by (simp add: after_conflict_pass_def conflicted_service_def conflict_env_def sync_eval)

lemma after_conflict_pass_messages:
  "messages (database after_conflict_pass) =
     [(''m1'', \<lparr>entity_id = ''m1'', entity_body = ''hello''\<rparr>)]"
  by (simp add: after_conflict_pass_def conflicted_service_def conflict_env_def sync_eval)

lemma after_conflict_pass_journal: "getLocalChanges (storage after_conflict_pass) = []"
  by (simp add: after_conflict_pass_def conflicted_service_def conflict_env_def sync_eval)

lemma conflict_reported_c1: "conflictReported conflict_env (uploaded after_conflict_pass) 0 ''c1''"
  by (simp add: after_conflict_pass_uploaded conflictReported_def conflict_env_def)

theorem server_wins_conflict_removed_witness:
  "startSync conflict_env False conflicted_service = Some (Completed, after_conflict_pass) \<and>
   conflictReported conflict_env (uploaded after_conflict_pass) 0 ''c1'' \<and>
   ''c1'' \<in> journalIds conflicted_service \<and>
   ''c1'' \<notin> journalIds after_conflict_pass"
proof -
  have wf: "storage_wf (storage conflicted_service)"
    by (simp add: conflicted_service_storage storage_wf_def startsWith_def changeKey_def)
  have sw: "conflictResolution (sync_config conflicted_service) = SERVER_WINS"
    by (simp add: conflicted_service_def sync_eval)
  have before: "''c1'' \<in> journalIds conflicted_service"
    by (simp add: journalIds_def conflicted_service_storage getLocalChanges_def startsWith_def
          readChange_def getItem_def)
  have log: "uploaded conflicted_service = []"
    by (simp add: conflicted_service_def sync_eval)
  show ?thesis
    using server_wins_conflict_removed [OF wf sw conflict_pass, of 0 "''c1''"]
      conflict_pass conflict_reported_c1 before
    by (simp add: log after_conflict_pass_uploaded)
qed

text \<open>
  Claim C4. Its first part is the theorem above: the conflicting change leaves the
  journal and is not uploaded again. Its second part, that local storage holds the
  server-reported payload after the pass, is not what the code does. The branch of
  \<open>resolveConflict\<close> for \<open>SERVER_WINS\<close>, whose comment reads ``use the server data, discard
  the local change'', only removes the journal entry; \<open>serverData\<close> is not used. Here
  the database holds message \<open>m1\<close> with the text of a local edit, the journal holds the
  change \<open>c1\<close> that records the edit, and the remote authority refuses the change: it
  answers the upload with a conflict for \<open>c1\<close> whose server data is \<open>m1\<close> with the
  text \<open>server text\<close>, and has no changes to download. The pass completes, the journal
  is empty, and the database still holds the text of the local edit.
\<close>

theorem server_wins_keeps_local_payload:
  "startSync conflict_env False conflicted_service = Some (Completed, after_conflict_pass) \<and>
   conflictReported conflict_env (uploaded after_conflict_pass) 0 ''c1'' \<and>
   getLocalChanges (storage after_conflict_pass) = [] \<and>
   map_of (messages (database after_conflict_pass)) ''m1'' =
     Some \<lparr>entity_id = ''m1'', entity_body = ''hello''\<rparr> \<and>
   map_of (messages (database after_conflict_pass)) ''m1'' \<noteq>
     Some \<lparr>entity_id = ''m1'', entity_body = ''server text''\<rparr> \<and>
   (case upload_answer conflict_env [] (hd (uploaded after_conflict_pass)) of
      Inl error \<Rightarrow> None
    | Inr response \<Rightarrow> map_option (\<lambda>d. map serverData (conflicts d)) (env_data response)) =
     Some [\<lparr>entity_id = ''m1'', entity_body = ''server text''\<rparr>]"
  using conflict_pass conflict_reported_c1
  by (simp add: after_conflict_pass_messages after_conflict_pass_journal conflict_env_def)

end
